theory Spec2Isabelle
  imports Main "HOL-Library.Char_ord" "HOL-Library.List_Lexorder" "HOL-Library.AList"
begin

section \<open>Byte strings and Python integers\<close>

text \<open>
  A Python \<open>bytes\<close> value is a list of characters (each one byte). With
  \<open>Char_ord\<close> and \<open>List_Lexorder\<close> the order \<open><\<close> on such lists is the
  byte-lexicographic order of Python's \<open>bytes\<close> comparison: bytes compare as
  unsigned values and a proper prefix is smaller.
\<close>

type_synonym bytes = "char list"

datatype error =
    OverflowError
  | IndexError
  | AttributeError
  | TypeError
  | AssertionError
  | DeserializeError
  | ReceiptError

text \<open>\<open>int.from_bytes(bs, "big")\<close>\<close>

definition from_bytes :: "bytes \<Rightarrow> int" where
  "from_bytes bs = foldl (\<lambda>acc c. acc * 256 + of_char c) 0 bs"

text \<open>The \<open>len\<close> low-order base-256 digits of \<open>n\<close>, most significant first.\<close>

fun be_bytes :: "nat \<Rightarrow> int \<Rightarrow> bytes" where
  "be_bytes 0 n = []"
| "be_bytes (Suc l) n = be_bytes l (n div 256) @ [char_of (n mod 256)]"

text \<open>
  \<open>n.to_bytes(len, "big")\<close>: Python raises \<open>OverflowError\<close> for a negative
  \<open>n\<close> and for an \<open>n\<close> that does not fit \<open>len\<close> bytes.
\<close>

definition to_bytes :: "int \<Rightarrow> nat \<Rightarrow> error + bytes" where
  "to_bytes n len =
     (if n < 0 \<or> 256 ^ len \<le> n then Inl OverflowError else Inr (be_bytes len n))"

text \<open>\<open>b"%d" % n\<close>: the decimal ASCII digits of a Python integer.\<close>

fun digits :: "nat \<Rightarrow> bytes" where
  "digits n =
     (if n < 10 then [char_of (48 + n)]
      else digits (n div 10) @ [char_of (48 + n mod 10)])"

definition decimal :: "int \<Rightarrow> bytes" where
  "decimal n = (if n < 0 then ''-'' @ digits (nat (- n)) else digits (nat n))"


section \<open>The key-value store\<close>

text \<open>
  Modelled from the spec: the store \<open>self.db\<close> is an external collaborator whose
  code is not part of the source file. The spec gives its interface:
  \<open>put(key,value)\<close>, \<open>get(key, default?)\<close>, \<open>remove(key)\<close>, \<open>contains(key)\<close> and
  \<open>reversedRangeIter(start, end)\<close>, a sequence of (key, value) in descending
  byte-lexicographic key order over the range from \<open>start\<close> (inclusive) down to
  \<open>end\<close> (exclusive). The store is an association list from keys to values.
\<close>

type_synonym kvstore = "(bytes \<times> bytes) list"

definition db_get :: "kvstore \<Rightarrow> bytes \<Rightarrow> bytes option" where
  "db_get d k = map_of d k"

definition db_put :: "kvstore \<Rightarrow> bytes \<Rightarrow> bytes \<Rightarrow> kvstore" where
  "db_put d k v = AList.update k v d"

definition db_remove :: "kvstore \<Rightarrow> bytes \<Rightarrow> kvstore" where
  "db_remove d k = AList.delete k d"

definition db_contains :: "kvstore \<Rightarrow> bytes \<Rightarrow> bool" where
  "db_contains d k = (map_of d k \<noteq> None)"

definition range_keys :: "kvstore \<Rightarrow> bytes \<Rightarrow> bytes \<Rightarrow> bytes list" where
  "range_keys d start endk =
     rev (sort (remdups (filter (\<lambda>k. endk < k \<and> k \<le> start) (map fst d))))"

definition reversed_range_iter :: "kvstore \<Rightarrow> bytes \<Rightarrow> bytes \<Rightarrow> (bytes \<times> bytes) list" where
  "reversed_range_iter d start endk =
     map (\<lambda>k. (k, case map_of d k of None \<Rightarrow> [] | Some v \<Rightarrow> v)) (range_keys d start endk)"


section \<open>Blocks, transactions and the collaborators of the operator\<close>

record root_block_header =
  root_height :: int
  hash_prev_block :: bytes

record root_block =
  root_header :: root_block_header

record minor_block_header =
  height :: int
  hash_prev_minor_block :: bytes
  create_time :: int

record minor_block_meta =
  hash_evm_state_root :: bytes

record address =
  recipient :: bytes
  full_shard_key :: int

text \<open>The fields of \<open>tx.tx.to_evm_tx()\<close> the operator reads; an empty \<open>evm_to\<close>
  is a contract creation.\<close>

record evm_tx =
  evm_sender :: bytes
  evm_from_full_shard_key :: int
  evm_to :: bytes
  evm_to_full_shard_key :: int
  evm_value :: int
  evm_gas_token_id :: int
  evm_transfer_token_id :: int

record transaction =
  to_evm_tx :: evm_tx

record minor_block =
  header :: minor_block_header
  meta :: minor_block_meta
  tx_list :: "transaction list"

record cross_shard_transaction_deposit =
  tx_hash :: bytes
  from_address :: address
  to_address :: address
  deposit_value :: int
  gas_token_id :: int
  transfer_token_id :: int

record receipt =
  success :: bytes

record transaction_detail =
  detail_tx_hash :: bytes
  detail_from_address :: address
  detail_to_address :: "address option"
  detail_value :: int
  detail_block_height :: int
  detail_timestamp :: int
  detail_success :: bool
  detail_gas_token_id :: int
  detail_transfer_token_id :: int

text \<open>
  The code of the hash functions, of the block and list codecs, of
  \<open>Address.serialize\<close>, of \<open>MinorBlock.get_receipt\<close> and of \<open>Branch.is_in_branch\<close>
  lives outside the source file; the operator takes them as parameters. A
  deserializer that raises returns \<open>None\<close>.
\<close>

record collab =
  mheader_get_hash :: "minor_block_header \<Rightarrow> bytes"
  rheader_get_hash :: "root_block_header \<Rightarrow> bytes"
  tx_get_hash :: "transaction \<Rightarrow> bytes"
  mblock_serialize :: "minor_block \<Rightarrow> bytes"
  mblock_deserialize :: "bytes \<Rightarrow> minor_block option"
  rblock_serialize :: "root_block \<Rightarrow> bytes"
  rblock_deserialize :: "bytes \<Rightarrow> root_block option"
  xlist_serialize :: "cross_shard_transaction_deposit list \<Rightarrow> bytes"
  xlist_deserialize :: "bytes \<Rightarrow> cross_shard_transaction_deposit list option"
  address_serialize :: "address \<Rightarrow> bytes"
  get_receipt :: "kvstore \<Rightarrow> minor_block \<Rightarrow> int \<Rightarrow> receipt option"
  is_in_branch :: "int \<Rightarrow> bool"

record environment =
  ENABLE_TRANSACTION_HISTORY :: bool
  max_root_blocks_in_memory :: int
  max_minor_blocks_in_memory :: int
  genesis_root_height :: int

record shard_db_operator =
  env :: environment
  db :: kvstore
  m_header_pool :: "bytes \<rightharpoonup> minor_block_header"
  m_meta_pool :: "bytes \<rightharpoonup> minor_block_meta"
  x_shard_set :: "bytes set"
  r_header_pool :: "bytes \<rightharpoonup> root_block_header"
  height_to_minor_block_hashes :: "int \<rightharpoonup> bytes set"


section \<open>The address-history key\<close>

definition encode_address_transaction_key ::
  "collab \<Rightarrow> address \<Rightarrow> int \<Rightarrow> int \<Rightarrow> bool \<Rightarrow> error + bytes" where
  "encode_address_transaction_key X addr hght index cross_shard =
     (let cross_shard_byte = (if cross_shard then [CHR 0x00] else [CHR 0x01]) in
      case to_bytes hght 4 of
        Inl e \<Rightarrow> Inl e
      | Inr hb \<Rightarrow>
         (case to_bytes index 4 of
            Inl e \<Rightarrow> Inl e
          | Inr ib \<Rightarrow>
             Inr (''addr_'' @ address_serialize X addr @ hb @ cross_shard_byte @ ib)))"

text \<open>
  The order the spec names: ascending lexicographic order of
  (address bytes, height, flag, index), a cross-shard entry before a local
  one.
\<close>

definition history_tuple_less ::
  "bytes \<times> int \<times> bool \<times> int \<Rightarrow> bytes \<times> int \<times> bool \<times> int \<Rightarrow> bool" where
  "history_tuple_less t1 t2 =
     (case t1 of (a1, h1, c1, i1) \<Rightarrow> case t2 of (a2, h2, c2, i2) \<Rightarrow>
        a1 < a2 \<or> (a1 = a2 \<and>
          (h1 < h2 \<or> (h1 = h2 \<and>
            ((c1 \<and> \<not> c2) \<or> (c1 = c2 \<and> i1 < i2))))))"



section \<open>The operator\<close>

text \<open>\<open>ShardDbOperator.__init__\<close>\<close>

definition init :: "kvstore \<Rightarrow> environment \<Rightarrow> shard_db_operator" where
  "init d e =
     \<lparr>env = e, db = d, m_header_pool = Map.empty, m_meta_pool = Map.empty,
      x_shard_set = {}, r_header_pool = Map.empty,
      height_to_minor_block_hashes = Map.empty\<rparr>"

subsection \<open>Transaction history\<close>

definition put_confirmed_cross_shard_transaction_deposit_list ::
  "collab \<Rightarrow> shard_db_operator \<Rightarrow> bytes \<Rightarrow> cross_shard_transaction_deposit list
     \<Rightarrow> shard_db_operator" where
  "put_confirmed_cross_shard_transaction_deposit_list X s minor_block_hash l =
     (if \<not> ENABLE_TRANSACTION_HISTORY (env s) then s
      else s\<lparr>db := db_put (db s) (''xr_'' @ minor_block_hash) (xlist_serialize X l)\<rparr>)"

definition get_confirmed_cross_shard_transaction_deposit_list ::
  "collab \<Rightarrow> shard_db_operator \<Rightarrow> bytes
     \<Rightarrow> error + cross_shard_transaction_deposit list" where
  "get_confirmed_cross_shard_transaction_deposit_list X s minor_block_hash =
     (case db_get (db s) (''xr_'' @ minor_block_hash) of
        None \<Rightarrow> Inr []
      | Some data \<Rightarrow>
         if data = [] then Inr []
         else (case xlist_deserialize X data of
                 None \<Rightarrow> Inl DeserializeError
               | Some l \<Rightarrow> Inr l))"

text \<open>
  \<open>__update_transaction_history_index\<close>; \<open>func\<close> is \<open>db.put\<close> or
  \<open>db.remove\<close> (which ignores the value).
\<close>

definition update_transaction_history_index ::
  "collab \<Rightarrow> shard_db_operator \<Rightarrow> transaction \<Rightarrow> int \<Rightarrow> int
     \<Rightarrow> (kvstore \<Rightarrow> bytes \<Rightarrow> bytes \<Rightarrow> kvstore) \<Rightarrow> error + shard_db_operator" where
  "update_transaction_history_index X s tx block_height index func =
     (let evm = to_evm_tx tx;
          addr = \<lparr>recipient = evm_sender evm, full_shard_key = evm_from_full_shard_key evm\<rparr>
      in case encode_address_transaction_key X addr block_height index False of
           Inl e \<Rightarrow> Inl e
         | Inr key \<Rightarrow>
            (let s1 = s\<lparr>db := func (db s) key []\<rparr> in
             if evm_to evm \<noteq> [] \<and> is_in_branch X (evm_to_full_shard_key evm) then
               (let addr2 = \<lparr>recipient = evm_to evm,
                              full_shard_key = evm_to_full_shard_key evm\<rparr>
                in case encode_address_transaction_key X addr2 block_height index False of
                     Inl e \<Rightarrow> Inl e
                   | Inr key2 \<Rightarrow> Inr (s1\<lparr>db := func (db s1) key2 []\<rparr>))
             else Inr s1))"

definition put_transaction_history_index ::
  "collab \<Rightarrow> shard_db_operator \<Rightarrow> transaction \<Rightarrow> int \<Rightarrow> int
     \<Rightarrow> error + shard_db_operator" where
  "put_transaction_history_index X s tx block_height index =
     (if \<not> ENABLE_TRANSACTION_HISTORY (env s) then Inr s
      else update_transaction_history_index X s tx block_height index
             (\<lambda>d k v. db_put d k v))"

definition remove_transaction_history_index ::
  "collab \<Rightarrow> shard_db_operator \<Rightarrow> transaction \<Rightarrow> int \<Rightarrow> int
     \<Rightarrow> error + shard_db_operator" where
  "remove_transaction_history_index X s tx block_height index =
     (if \<not> ENABLE_TRANSACTION_HISTORY (env s) then Inr s
      else update_transaction_history_index X s tx block_height index
             (\<lambda>d k v. db_remove d k))"

text \<open>The loop of \<open>__update_transaction_history_index_from_block\<close> over
  \<open>enumerate(x_shard_receive_tx_list)\<close>, from position \<open>i\<close>.\<close>

fun update_history_from_list ::
  "collab \<Rightarrow> shard_db_operator \<Rightarrow> int \<Rightarrow> (kvstore \<Rightarrow> bytes \<Rightarrow> bytes \<Rightarrow> kvstore)
     \<Rightarrow> int \<Rightarrow> cross_shard_transaction_deposit list \<Rightarrow> error + shard_db_operator" where
  "update_history_from_list X s hght func i [] = Inr s"
| "update_history_from_list X s hght func i (tx # txs) =
     (if tx_hash tx = replicate 32 (CHR 0x00) then
        update_history_from_list X s hght func (i + 1) txs
      else case encode_address_transaction_key X (to_address tx) hght i True of
             Inl e \<Rightarrow> Inl e
           | Inr key \<Rightarrow>
              update_history_from_list X (s\<lparr>db := func (db s) key []\<rparr>) hght func (i + 1) txs)"

definition update_transaction_history_index_from_block ::
  "collab \<Rightarrow> shard_db_operator \<Rightarrow> minor_block \<Rightarrow> (kvstore \<Rightarrow> bytes \<Rightarrow> bytes \<Rightarrow> kvstore)
     \<Rightarrow> error + shard_db_operator" where
  "update_transaction_history_index_from_block X s m_block func =
     (case get_confirmed_cross_shard_transaction_deposit_list X s
             (mheader_get_hash X (header m_block)) of
        Inl e \<Rightarrow> Inl e
      | Inr x_shard_receive_tx_list \<Rightarrow>
         update_history_from_list X s (height (header m_block)) func 0
           x_shard_receive_tx_list)"

definition put_transaction_history_index_from_block ::
  "collab \<Rightarrow> shard_db_operator \<Rightarrow> minor_block \<Rightarrow> error + shard_db_operator" where
  "put_transaction_history_index_from_block X s m_block =
     (if \<not> ENABLE_TRANSACTION_HISTORY (env s) then Inr s
      else update_transaction_history_index_from_block X s m_block (\<lambda>d k v. db_put d k v))"

definition remove_transaction_history_index_from_block ::
  "collab \<Rightarrow> shard_db_operator \<Rightarrow> minor_block \<Rightarrow> error + shard_db_operator" where
  "remove_transaction_history_index_from_block X s m_block =
     (if \<not> ENABLE_TRANSACTION_HISTORY (env s) then Inr s
      else update_transaction_history_index_from_block X s m_block (\<lambda>d k v. db_remove d k))"

subsection \<open>Minor blocks\<close>

definition get_minor_block_by_hash ::
  "collab \<Rightarrow> shard_db_operator \<Rightarrow> bytes \<Rightarrow> error + minor_block option" where
  "get_minor_block_by_hash X s h =
     (case db_get (db s) (''mblock_'' @ h) of
        None \<Rightarrow> Inr None
      | Some data \<Rightarrow>
         if data = [] then Inr None
         else (case mblock_deserialize X data of
                 None \<Rightarrow> Inl DeserializeError
               | Some block \<Rightarrow> Inr (Some block)))"

definition get_total_tx_count :: "shard_db_operator \<Rightarrow> bytes \<Rightarrow> int" where
  "get_total_tx_count s m_block_hash =
     (case db_get (db s) (''tx_count_'' @ m_block_hash) of
        None \<Rightarrow> 0
      | Some count_bytes \<Rightarrow> if count_bytes = [] then 0 else from_bytes count_bytes)"

definition put_total_tx_count ::
  "collab \<Rightarrow> shard_db_operator \<Rightarrow> minor_block \<Rightarrow> error + shard_db_operator" where
  "put_total_tx_count X s m_block =
     (let prev_count =
            (if height (header m_block) > 2
             then get_total_tx_count s (hash_prev_minor_block (header m_block))
             else 0);
          count = prev_count + int (length (tx_list m_block))
      in case to_bytes count 4 of
           Inl e \<Rightarrow> Inl e
         | Inr count_bytes \<Rightarrow>
            Inr (s\<lparr>db := db_put (db s)
                           (''tx_count_'' @ mheader_get_hash X (header m_block))
                           count_bytes\<rparr>))"

text \<open>\<open>d.setdefault(k, set()).add(x)\<close>\<close>

definition setdefault_add :: "('k \<rightharpoonup> 'a set) \<Rightarrow> 'k \<Rightarrow> 'a \<Rightarrow> ('k \<rightharpoonup> 'a set)" where
  "setdefault_add m k x = m(k \<mapsto> insert x (case m k of None \<Rightarrow> {} | Some S \<Rightarrow> S))"

definition put_minor_block ::
  "collab \<Rightarrow> shard_db_operator \<Rightarrow> minor_block \<Rightarrow> cross_shard_transaction_deposit list
     \<Rightarrow> error + shard_db_operator" where
  "put_minor_block X s m_block x_shard_receive_tx_list =
     (let m_block_hash = mheader_get_hash X (header m_block);
          s1 = s\<lparr>db := db_put (db s) (''mblock_'' @ m_block_hash)
                          (mblock_serialize X m_block)\<rparr>
      in case put_total_tx_count X s1 m_block of
           Inl e \<Rightarrow> Inl e
         | Inr s2 \<Rightarrow>
            (let s3 = s2\<lparr>m_header_pool := (m_header_pool s2)(m_block_hash \<mapsto> header m_block)\<rparr>;
                 s4 = s3\<lparr>m_meta_pool := (m_meta_pool s3)(m_block_hash \<mapsto> meta m_block)\<rparr>;
                 s5 = s4\<lparr>height_to_minor_block_hashes :=
                           setdefault_add (height_to_minor_block_hashes s4)
                             (height (header m_block))
                             (mheader_get_hash X (header m_block))\<rparr>
             in Inr (put_confirmed_cross_shard_transaction_deposit_list X s5 m_block_hash
                       x_shard_receive_tx_list)))"

definition get_minor_block_header_by_hash ::
  "collab \<Rightarrow> shard_db_operator \<Rightarrow> bytes
     \<Rightarrow> error + (minor_block_header option \<times> shard_db_operator)" where
  "get_minor_block_header_by_hash X s h =
     (case get_minor_block_by_hash X s h of
        Inl e \<Rightarrow> Inl e
      | Inr None \<Rightarrow> Inr (None, s)
      | Inr (Some block) \<Rightarrow>
         Inr (Some (header block),
              s\<lparr>m_header_pool := (m_header_pool s)(h \<mapsto> header block)\<rparr>))"

definition get_minor_block_meta_by_hash ::
  "collab \<Rightarrow> shard_db_operator \<Rightarrow> bytes
     \<Rightarrow> error + (minor_block_meta option \<times> shard_db_operator)" where
  "get_minor_block_meta_by_hash X s h =
     (case get_minor_block_by_hash X s h of
        Inl e \<Rightarrow> Inl e
      | Inr None \<Rightarrow> Inr (None, s)
      | Inr (Some block) \<Rightarrow>
         Inr (Some (meta block),
              s\<lparr>m_meta_pool := (m_meta_pool s)(h \<mapsto> meta block)\<rparr>))"

definition get_minor_block_evm_root_hash_by_hash ::
  "collab \<Rightarrow> shard_db_operator \<Rightarrow> bytes \<Rightarrow> error + (bytes option \<times> shard_db_operator)" where
  "get_minor_block_evm_root_hash_by_hash X s h =
     (case get_minor_block_meta_by_hash X s h of
        Inl e \<Rightarrow> Inl e
      | Inr (None, s') \<Rightarrow> Inr (None, s')
      | Inr (Some m, s') \<Rightarrow> Inr (Some (hash_evm_state_root m), s'))"

definition contain_minor_block_by_hash :: "shard_db_operator \<Rightarrow> bytes \<Rightarrow> bool" where
  "contain_minor_block_by_hash s h =
     (h \<in> dom (m_header_pool s) \<or> db_contains (db s) (''mblock_'' @ h))"

definition put_minor_block_index ::
  "collab \<Rightarrow> shard_db_operator \<Rightarrow> minor_block \<Rightarrow> shard_db_operator" where
  "put_minor_block_index X s block =
     s\<lparr>db := db_put (db s) (''mi_'' @ decimal (height (header block)))
                (mheader_get_hash X (header block))\<rparr>"

definition remove_minor_block_index :: "shard_db_operator \<Rightarrow> minor_block \<Rightarrow> shard_db_operator" where
  "remove_minor_block_index s block =
     s\<lparr>db := db_remove (db s) (''mi_'' @ decimal (height (header block)))\<rparr>"

definition get_minor_block_by_height ::
  "collab \<Rightarrow> shard_db_operator \<Rightarrow> int \<Rightarrow> error + minor_block option" where
  "get_minor_block_by_height X s hght =
     (let key = ''mi_'' @ decimal hght in
      if \<not> db_contains (db s) key then Inr None
      else (case db_get (db s) key of
              None \<Rightarrow> Inl TypeError
            | Some block_hash \<Rightarrow> get_minor_block_by_hash X s block_hash))"

text \<open>\<open>len(d.setdefault(height, set()))\<close>: an absent height is entered with
  the empty set.\<close>

definition get_block_count_by_height ::
  "shard_db_operator \<Rightarrow> int \<Rightarrow> nat \<times> shard_db_operator" where
  "get_block_count_by_height s hght =
     (case height_to_minor_block_hashes s hght of
        None \<Rightarrow>
          (0, s\<lparr>height_to_minor_block_hashes :=
                   (height_to_minor_block_hashes s)(hght \<mapsto> {})\<rparr>)
      | Some S \<Rightarrow> (card S, s))"

subsection \<open>Root blocks\<close>

definition put_root_block ::
  "collab \<Rightarrow> shard_db_operator \<Rightarrow> root_block \<Rightarrow> minor_block_header option \<Rightarrow> bytes option
     \<Rightarrow> shard_db_operator" where
  "put_root_block X s root_block r_minor_header root_block_hash =
     (let h = (case root_block_hash of
                 None \<Rightarrow> rheader_get_hash X (root_header root_block)
               | Some h \<Rightarrow> h);
          s1 = s\<lparr>r_header_pool := (r_header_pool s)(h \<mapsto> root_header root_block)\<rparr>;
          s2 = s1\<lparr>db := db_put (db s1) (''rblock_'' @ h) (rblock_serialize X root_block)\<rparr>;
          r_minor_header_hash =
            (case r_minor_header of None \<Rightarrow> [] | Some mh \<Rightarrow> mheader_get_hash X mh)
      in s2\<lparr>db := db_put (db s2) (''r_last_m'' @ h) r_minor_header_hash\<rparr>)"

definition get_root_block_by_hash ::
  "collab \<Rightarrow> shard_db_operator \<Rightarrow> bytes \<Rightarrow> error + (root_block option \<times> shard_db_operator)" where
  "get_root_block_by_hash X s h =
     (case db_get (db s) (''rblock_'' @ h) of
        None \<Rightarrow> Inr (None, s)
      | Some raw_block \<Rightarrow>
         if raw_block = [] then Inr (None, s)
         else (case rblock_deserialize X raw_block of
                 None \<Rightarrow> Inl DeserializeError
               | Some block \<Rightarrow>
                  Inr (Some block,
                       s\<lparr>r_header_pool := (r_header_pool s)(h \<mapsto> root_header block)\<rparr>)))"

definition get_root_block_header_by_hash ::
  "collab \<Rightarrow> shard_db_operator \<Rightarrow> bytes
     \<Rightarrow> error + (root_block_header option \<times> shard_db_operator)" where
  "get_root_block_header_by_hash X s h =
     (case r_header_pool s h of
        Some hdr \<Rightarrow> Inr (Some hdr, s)
      | None \<Rightarrow>
         (case get_root_block_by_hash X s h of
            Inl e \<Rightarrow> Inl e
          | Inr (None, s') \<Rightarrow> Inr (None, s')
          | Inr (Some block, s') \<Rightarrow>
             Inr (Some (root_header block),
                  s'\<lparr>r_header_pool := (r_header_pool s')(h \<mapsto> root_header block)\<rparr>)))"

text \<open>The \<open>while\<close> loop of \<open>get_root_block_header_by_height\<close>; when the
  parent is not found \<open>r_header\<close> is \<open>None\<close> and the next loop test, which reads
  \<open>r_header.height\<close>, raises.\<close>

partial_function (option) root_header_walk ::
  "collab \<Rightarrow> shard_db_operator \<Rightarrow> int \<Rightarrow> root_block_header
     \<Rightarrow> (error + (root_block_header option \<times> shard_db_operator)) option" where
  "root_header_walk X s hght rh =
     (if hght \<noteq> root_height rh then
        (case get_root_block_header_by_hash X s (hash_prev_block rh) of
           Inl e \<Rightarrow> Some (Inl e)
         | Inr (None, s') \<Rightarrow> Some (Inl AttributeError)
         | Inr (Some rh', s') \<Rightarrow> root_header_walk X s' hght rh')
      else Some (Inr (Some rh, s)))"

definition get_root_block_header_by_height ::
  "collab \<Rightarrow> shard_db_operator \<Rightarrow> bytes \<Rightarrow> int
     \<Rightarrow> (error + (root_block_header option \<times> shard_db_operator)) option" where
  "get_root_block_header_by_height X s h hght =
     (case get_root_block_header_by_hash X s h of
        Inl e \<Rightarrow> Some (Inl e)
      | Inr (None, s') \<Rightarrow> Some (Inl AttributeError)
      | Inr (Some rh, s') \<Rightarrow>
         if hght > root_height rh then Some (Inr (None, s'))
         else root_header_walk X s' hght rh)"

definition contain_root_block_by_hash :: "shard_db_operator \<Rightarrow> bytes \<Rightarrow> bool" where
  "contain_root_block_by_hash s h =
     (h \<in> dom (r_header_pool s) \<or> db_contains (db s) (''rblock_'' @ h))"

definition get_last_confirmed_minor_block_header_at_root_block ::
  "collab \<Rightarrow> shard_db_operator \<Rightarrow> bytes
     \<Rightarrow> error + (minor_block_header option \<times> shard_db_operator)" where
  "get_last_confirmed_minor_block_header_at_root_block X s root_hash =
     (case db_get (db s) (''r_last_m'' @ root_hash) of
        None \<Rightarrow> Inr (None, s)
      | Some r_minor_header_hash \<Rightarrow>
         if r_minor_header_hash = [] then Inr (None, s)
         else get_minor_block_header_by_hash X s r_minor_header_hash)"

definition put_genesis_block ::
  "collab \<Rightarrow> shard_db_operator \<Rightarrow> bytes \<Rightarrow> minor_block \<Rightarrow> shard_db_operator" where
  "put_genesis_block X s root_block_hash genesis_block =
     s\<lparr>db := db_put (db s) (''genesis_'' @ root_block_hash)
                (mblock_serialize X genesis_block)\<rparr>"

definition get_genesis_block ::
  "collab \<Rightarrow> shard_db_operator \<Rightarrow> bytes \<Rightarrow> error + minor_block option" where
  "get_genesis_block X s root_block_hash =
     (case db_get (db s) (''genesis_'' @ root_block_hash) of
        None \<Rightarrow> Inr None
      | Some data \<Rightarrow>
         if data = [] then Inr None
         else (case mblock_deserialize X data of
                 None \<Rightarrow> Inl DeserializeError
               | Some block \<Rightarrow> Inr (Some block)))"

subsection \<open>Recovery\<close>

text \<open>
  Each \<open>while\<close> loop of \<open>recover_state\<close>. Nothing bounds the walk when the
  stored \<open>prev\<close> pointers form a cycle, so a run that does not return is the
  value \<open>None\<close>. \<open>db.get\<close> of an absent key gives \<open>None\<close>, which the
  deserializer rejects.
\<close>

partial_function (option) recover_root_loop ::
  "collab \<Rightarrow> shard_db_operator \<Rightarrow> bytes \<Rightarrow> (error + shard_db_operator) option" where
  "recover_root_loop X s r_hash =
     (if int (card (dom (r_header_pool s))) < max_root_blocks_in_memory (env s) then
        (case db_get (db s) (''rblock_'' @ r_hash) of
           None \<Rightarrow> Some (Inl DeserializeError)
         | Some data \<Rightarrow>
            (case rblock_deserialize X data of
               None \<Rightarrow> Some (Inl DeserializeError)
             | Some block \<Rightarrow>
                (let s' = s\<lparr>r_header_pool := (r_header_pool s)(r_hash \<mapsto> root_header block)\<rparr>
                 in if root_height (root_header block) \<le> genesis_root_height (env s)
                    then Some (Inr s')
                    else recover_root_loop X s' (hash_prev_block (root_header block)))))
      else Some (Inr s))"

partial_function (option) recover_minor_loop ::
  "collab \<Rightarrow> shard_db_operator \<Rightarrow> bytes \<Rightarrow> (error + shard_db_operator) option" where
  "recover_minor_loop X s m_hash =
     (if int (card (dom (m_header_pool s))) < max_minor_blocks_in_memory (env s) then
        (case db_get (db s) (''mblock_'' @ m_hash) of
           None \<Rightarrow> Some (Inl DeserializeError)
         | Some data \<Rightarrow>
            (case mblock_deserialize X data of
               None \<Rightarrow> Some (Inl DeserializeError)
             | Some block \<Rightarrow>
                (let s1 = s\<lparr>m_header_pool := (m_header_pool s)(m_hash \<mapsto> header block)\<rparr>;
                     s2 = s1\<lparr>m_meta_pool := (m_meta_pool s1)(m_hash \<mapsto> meta block)\<rparr>
                 in if height (header block) \<le> 0
                    then Some (Inr s2)
                    else recover_minor_loop X s2 (hash_prev_minor_block (header block)))))
      else Some (Inr s))"

definition recover_state ::
  "collab \<Rightarrow> shard_db_operator \<Rightarrow> root_block_header \<Rightarrow> minor_block_header
     \<Rightarrow> (error + shard_db_operator) option" where
  "recover_state X s r_header m_header =
     (case recover_root_loop X s (rheader_get_hash X r_header) of
        None \<Rightarrow> None
      | Some (Inl e) \<Rightarrow> Some (Inl e)
      | Some (Inr s1) \<Rightarrow> recover_minor_loop X s1 (mheader_get_hash X m_header))"

subsection \<open>Transactions\<close>

definition put_transaction_index ::
  "collab \<Rightarrow> shard_db_operator \<Rightarrow> transaction \<Rightarrow> int \<Rightarrow> int \<Rightarrow> error + shard_db_operator" where
  "put_transaction_index X s tx block_height index =
     (case to_bytes block_height 4 of
        Inl e \<Rightarrow> Inl e
      | Inr hb \<Rightarrow>
         (case to_bytes index 4 of
            Inl e \<Rightarrow> Inl e
          | Inr ib \<Rightarrow>
             put_transaction_history_index X
               (s\<lparr>db := db_put (db s) (''txindex_'' @ tx_get_hash X tx) (hb @ ib)\<rparr>)
               tx block_height index))"

definition remove_transaction_index ::
  "collab \<Rightarrow> shard_db_operator \<Rightarrow> transaction \<Rightarrow> int \<Rightarrow> int \<Rightarrow> error + shard_db_operator" where
  "remove_transaction_index X s tx block_height index =
     remove_transaction_history_index X
       (s\<lparr>db := db_remove (db s) (''txindex_'' @ tx_get_hash X tx)\<rparr>)
       tx block_height index"

definition contain_transaction_hash :: "shard_db_operator \<Rightarrow> bytes \<Rightarrow> bool" where
  "contain_transaction_hash s txh = db_contains (db s) (''txindex_'' @ txh)"

definition get_transaction_by_hash ::
  "collab \<Rightarrow> shard_db_operator \<Rightarrow> bytes \<Rightarrow> error + (minor_block option \<times> int option)" where
  "get_transaction_by_hash X s txh =
     (case db_get (db s) (''txindex_'' @ txh) of
        None \<Rightarrow> Inr (None, None)
      | Some result \<Rightarrow>
         if result = [] then Inr (None, None)
         else if length result \<noteq> 8 then Inl AssertionError
         else (let block_height = from_bytes (take 4 result);
                   index = from_bytes (drop 4 result)
               in case get_minor_block_by_height X s block_height of
                    Inl e \<Rightarrow> Inl e
                  | Inr b \<Rightarrow> Inr (b, Some index)))"

text \<open>Each loop over \<open>enumerate(minor_block.tx_list)\<close>, from position \<open>i\<close>.\<close>

fun put_transaction_index_list ::
  "collab \<Rightarrow> shard_db_operator \<Rightarrow> int \<Rightarrow> int \<Rightarrow> transaction list \<Rightarrow> error + shard_db_operator" where
  "put_transaction_index_list X s hght i [] = Inr s"
| "put_transaction_index_list X s hght i (tx # txs) =
     (case put_transaction_index X s tx hght i of
        Inl e \<Rightarrow> Inl e
      | Inr s' \<Rightarrow> put_transaction_index_list X s' hght (i + 1) txs)"

fun remove_transaction_index_list ::
  "collab \<Rightarrow> shard_db_operator \<Rightarrow> int \<Rightarrow> int \<Rightarrow> transaction list \<Rightarrow> error + shard_db_operator" where
  "remove_transaction_index_list X s hght i [] = Inr s"
| "remove_transaction_index_list X s hght i (tx # txs) =
     (case remove_transaction_index X s tx hght i of
        Inl e \<Rightarrow> Inl e
      | Inr s' \<Rightarrow> remove_transaction_index_list X s' hght (i + 1) txs)"

definition put_transaction_index_from_block ::
  "collab \<Rightarrow> shard_db_operator \<Rightarrow> minor_block \<Rightarrow> error + shard_db_operator" where
  "put_transaction_index_from_block X s b =
     (case put_transaction_index_list X s (height (header b)) 0 (tx_list b) of
        Inl e \<Rightarrow> Inl e
      | Inr s' \<Rightarrow> put_transaction_history_index_from_block X s' b)"

definition remove_transaction_index_from_block ::
  "collab \<Rightarrow> shard_db_operator \<Rightarrow> minor_block \<Rightarrow> error + shard_db_operator" where
  "remove_transaction_index_from_block X s b =
     (case remove_transaction_index_list X s (height (header b)) 0 (tx_list b) of
        Inl e \<Rightarrow> Inl e
      | Inr s' \<Rightarrow> remove_transaction_history_index_from_block X s' b)"

subsection \<open>Cross-shard lists and the pass-through operations\<close>

definition put_minor_block_xshard_tx_list ::
  "collab \<Rightarrow> shard_db_operator \<Rightarrow> bytes \<Rightarrow> cross_shard_transaction_deposit list
     \<Rightarrow> shard_db_operator" where
  "put_minor_block_xshard_tx_list X s h l =
     s\<lparr>db := db_put (db s) (''xShard_'' @ h) (xlist_serialize X l)\<rparr>"

definition get_minor_block_xshard_tx_list ::
  "collab \<Rightarrow> shard_db_operator \<Rightarrow> bytes
     \<Rightarrow> error + cross_shard_transaction_deposit list option" where
  "get_minor_block_xshard_tx_list X s h =
     (let key = ''xShard_'' @ h in
      if \<not> db_contains (db s) key then Inr None
      else (case db_get (db s) key of
              None \<Rightarrow> Inl DeserializeError
            | Some data \<Rightarrow>
               (case xlist_deserialize X data of
                  None \<Rightarrow> Inl DeserializeError
                | Some l \<Rightarrow> Inr (Some l))))"

definition contain_remote_minor_block_hash :: "shard_db_operator \<Rightarrow> bytes \<Rightarrow> bool" where
  "contain_remote_minor_block_hash s h = db_contains (db s) (''xShard_'' @ h)"

definition put :: "shard_db_operator \<Rightarrow> bytes \<Rightarrow> bytes \<Rightarrow> shard_db_operator" where
  "put s key v = s\<lparr>db := db_put (db s) key v\<rparr>"

definition get :: "shard_db_operator \<Rightarrow> bytes \<Rightarrow> bytes option \<Rightarrow> bytes option" where
  "get s key dflt = (case db_get (db s) key of None \<Rightarrow> dflt | Some v \<Rightarrow> Some v)"

text \<open>\<open>__getitem__\<close>: the body is \<open>return self[key]\<close>, a call of \<open>__getitem__\<close>
  itself. A call that does not return is the value \<open>None\<close>.\<close>

partial_function (option) getitem :: "shard_db_operator \<Rightarrow> bytes \<Rightarrow> bytes option" where
  "getitem s key = getitem s key"

subsection \<open>The address-history query\<close>

text \<open>The body of the scan loop of \<open>get_transactions_by_address\<close> for one key
  \<open>k\<close>: the row built from the key, or the exception raised.\<close>

definition transaction_detail_of_key ::
  "collab \<Rightarrow> shard_db_operator \<Rightarrow> bytes \<Rightarrow> error + transaction_detail" where
  "transaction_detail_of_key X s k =
     (let hght = from_bytes (take 4 (drop (5 + 24) k)) in
      if length k \<le> 5 + 24 + 4 then Inl IndexError
      else
        (let cross_shard = ((of_char (k ! (5 + 24 + 4)) :: int) = 0);
             index = from_bytes (drop (5 + 24 + 4 + 1) k)
         in if cross_shard then
              (case get_minor_block_by_height X s hght of
                 Inl e \<Rightarrow> Inl e
               | Inr None \<Rightarrow> Inl AttributeError
               | Inr (Some m_block) \<Rightarrow>
                  (case get_confirmed_cross_shard_transaction_deposit_list X s
                          (mheader_get_hash X (header m_block)) of
                     Inl e \<Rightarrow> Inl e
                   | Inr x_shard_receive_tx_list \<Rightarrow>
                      if int (length x_shard_receive_tx_list) \<le> index then Inl IndexError
                      else (let tx = x_shard_receive_tx_list ! nat index in
                            Inr \<lparr>detail_tx_hash = tx_hash tx,
                                 detail_from_address = from_address tx,
                                 detail_to_address = Some (to_address tx),
                                 detail_value = deposit_value tx,
                                 detail_block_height = hght,
                                 detail_timestamp = create_time (header m_block),
                                 detail_success = True,
                                 detail_gas_token_id = gas_token_id tx,
                                 detail_transfer_token_id = transfer_token_id tx\<rparr>)))
            else
              (case get_minor_block_by_height X s hght of
                 Inl e \<Rightarrow> Inl e
               | Inr None \<Rightarrow> Inl AttributeError
               | Inr (Some m_block) \<Rightarrow>
                  (case get_receipt X (db s) m_block index of
                     None \<Rightarrow> Inl ReceiptError
                   | Some rcpt \<Rightarrow>
                      if int (length (tx_list m_block)) \<le> index then Inl IndexError
                      else (let tx = tx_list m_block ! nat index;
                                evm = to_evm_tx tx
                            in Inr \<lparr>detail_tx_hash = tx_get_hash X tx,
                                    detail_from_address =
                                      \<lparr>recipient = evm_sender evm,
                                       full_shard_key = evm_from_full_shard_key evm\<rparr>,
                                    detail_to_address =
                                      (if evm_to evm \<noteq> []
                                       then Some \<lparr>recipient = evm_to evm,
                                                  full_shard_key = evm_to_full_shard_key evm\<rparr>
                                       else None),
                                    detail_value = evm_value evm,
                                    detail_block_height = hght,
                                    detail_timestamp = create_time (header m_block),
                                    detail_success = (success rcpt = [CHR 0x01]),
                                    detail_gas_token_id = evm_gas_token_id evm,
                                    detail_transfer_token_id = evm_transfer_token_id evm\<rparr>)))))"

text \<open>The \<open>for k, v in self.db.reversed_range_iter(start, end)\<close> loop, with the
  running \<open>limit\<close>, \<open>tx_list\<close> and \<open>next\<close>.\<close>

fun scan_rows ::
  "collab \<Rightarrow> shard_db_operator \<Rightarrow> (bytes \<times> bytes) list \<Rightarrow> int \<Rightarrow> transaction_detail list
     \<Rightarrow> bytes \<Rightarrow> error + (transaction_detail list \<times> bytes)" where
  "scan_rows X s [] limit txs nxt = Inr (txs, nxt)"
| "scan_rows X s ((k, v) # kvs) limit txs nxt =
     (if limit - 1 < 0 then Inr (txs, nxt)
      else (case transaction_detail_of_key X s k of
              Inl e \<Rightarrow> Inl e
            | Inr d \<Rightarrow>
               (case to_bytes (from_bytes k - 1) (length k) of
                  Inl e \<Rightarrow> Inl e
                | Inr nxt' \<Rightarrow> scan_rows X s kvs (limit - 1) (txs @ [d]) nxt')))"

text \<open>The scan start of \<open>get_transactions_by_address\<close>: the caller's cursor, or
  \<open>original_start\<close> when the cursor is empty or above it.\<close>

definition scan_start :: "bytes \<Rightarrow> bytes \<Rightarrow> bytes" where
  "scan_start start original_start =
     (if start = [] \<or> start > original_start then original_start else start)"

text \<open>The pairs the loop of \<open>get_transactions_by_address\<close> iterates over:
  \<open>self.db.reversed_range_iter(start, end)\<close> after \<open>end\<close>, \<open>original_start\<close> and
  \<open>start\<close> have been computed.\<close>

definition scan_range ::
  "collab \<Rightarrow> shard_db_operator \<Rightarrow> address \<Rightarrow> bytes \<Rightarrow> error + (bytes \<times> bytes) list" where
  "scan_range X s addr start =
     (let serialized_address = address_serialize X addr;
          endk = ''addr_'' @ serialized_address
      in case to_bytes (from_bytes endk + 1) (length endk) of
           Inl e \<Rightarrow> Inl e
         | Inr original_start \<Rightarrow>
            Inr (reversed_range_iter (db s) (scan_start start original_start) endk))"

definition get_transactions_by_address ::
  "collab \<Rightarrow> shard_db_operator \<Rightarrow> address \<Rightarrow> bytes \<Rightarrow> int
     \<Rightarrow> error + (transaction_detail list \<times> bytes)" where
  "get_transactions_by_address X s addr start limit =
     (if \<not> ENABLE_TRANSACTION_HISTORY (env s) then Inr ([], [])
      else (case scan_range X s addr start of
              Inl e \<Rightarrow> Inl e
            | Inr kvs \<Rightarrow>
               scan_rows X s kvs limit [] (''addr_'' @ address_serialize X addr)))"


text \<open>The value of \<open>original_start\<close> in \<open>get_transactions_by_address\<close> when the
  conversion succeeds: \<open>end\<close> plus one, at the length of \<open>end\<close>.\<close>

definition original_start_of :: "bytes \<Rightarrow> bytes" where
  "original_start_of endk = be_bytes (length endk) (from_bytes endk + 1)"


section \<open>Sequences of operations\<close>

text \<open>
  The methods of the operator that change its state (the store or one of the
  in-memory maps), as commands. The remaining methods only read:
  \<open>get_minor_block_by_hash\<close>, \<open>get_minor_block_by_height\<close>,
  \<open>get_total_tx_count\<close>, \<open>get_transaction_by_hash\<close>,
  \<open>get_transactions_by_address\<close>, \<open>get_genesis_block\<close>,
  \<open>get_minor_block_xshard_tx_list\<close>, \<open>get\<close> and the \<open>contain_\<close> tests.
\<close>

datatype op =
    Recover_state root_block_header minor_block_header
  | Put_root_block root_block "minor_block_header option" "bytes option"
  | Get_root_block_by_hash bytes
  | Get_root_block_header_by_hash bytes
  | Get_root_block_header_by_height bytes int
  | Get_last_confirmed_minor_block_header_at_root_block bytes
  | Put_genesis_block bytes minor_block
  | Put_minor_block minor_block "cross_shard_transaction_deposit list"
  | Put_total_tx_count minor_block
  | Get_minor_block_header_by_hash bytes
  | Get_minor_block_evm_root_hash_by_hash bytes
  | Get_minor_block_meta_by_hash bytes
  | Put_minor_block_index minor_block
  | Remove_minor_block_index minor_block
  | Get_block_count_by_height int
  | Put_transaction_index transaction int int
  | Remove_transaction_index transaction int int
  | Put_transaction_index_from_block minor_block
  | Remove_transaction_index_from_block minor_block
  | Put_confirmed_cross_shard_transaction_deposit_list bytes "cross_shard_transaction_deposit list"
  | Put_transaction_history_index transaction int int
  | Remove_transaction_history_index transaction int int
  | Put_transaction_history_index_from_block minor_block
  | Remove_transaction_history_index_from_block minor_block
  | Put_minor_block_xshard_tx_list bytes "cross_shard_transaction_deposit list"
  | Put bytes bytes

text \<open>The state a call leaves behind when it returns a value together with
  the state.\<close>

definition after :: "error + ('a \<times> shard_db_operator) \<Rightarrow> error + shard_db_operator" where
  "after r = (case r of Inl e \<Rightarrow> Inl e | Inr p \<Rightarrow> Inr (snd p))"

text \<open>One call: the state after it, the exception it raises, or \<open>None\<close> when
  it does not return.\<close>

fun step :: "collab \<Rightarrow> shard_db_operator \<Rightarrow> op \<Rightarrow> (error + shard_db_operator) option" where
  "step X s (Recover_state rh mh) = recover_state X s rh mh"
| "step X s (Put_root_block b mh h) = Some (Inr (put_root_block X s b mh h))"
| "step X s (Get_root_block_by_hash h) = Some (after (get_root_block_by_hash X s h))"
| "step X s (Get_root_block_header_by_hash h) = Some (after (get_root_block_header_by_hash X s h))"
| "step X s (Get_root_block_header_by_height h n) =
     map_option after (get_root_block_header_by_height X s h n)"
| "step X s (Get_last_confirmed_minor_block_header_at_root_block h) =
     Some (after (get_last_confirmed_minor_block_header_at_root_block X s h))"
| "step X s (Put_genesis_block h b) = Some (Inr (put_genesis_block X s h b))"
| "step X s (Put_minor_block b xs) = Some (put_minor_block X s b xs)"
| "step X s (Put_total_tx_count b) = Some (put_total_tx_count X s b)"
| "step X s (Get_minor_block_header_by_hash h) = Some (after (get_minor_block_header_by_hash X s h))"
| "step X s (Get_minor_block_evm_root_hash_by_hash h) =
     Some (after (get_minor_block_evm_root_hash_by_hash X s h))"
| "step X s (Get_minor_block_meta_by_hash h) = Some (after (get_minor_block_meta_by_hash X s h))"
| "step X s (Put_minor_block_index b) = Some (Inr (put_minor_block_index X s b))"
| "step X s (Remove_minor_block_index b) = Some (Inr (remove_minor_block_index s b))"
| "step X s (Get_block_count_by_height n) = Some (Inr (snd (get_block_count_by_height s n)))"
| "step X s (Put_transaction_index t n i) = Some (put_transaction_index X s t n i)"
| "step X s (Remove_transaction_index t n i) = Some (remove_transaction_index X s t n i)"
| "step X s (Put_transaction_index_from_block b) = Some (put_transaction_index_from_block X s b)"
| "step X s (Remove_transaction_index_from_block b) =
     Some (remove_transaction_index_from_block X s b)"
| "step X s (Put_confirmed_cross_shard_transaction_deposit_list h l) =
     Some (Inr (put_confirmed_cross_shard_transaction_deposit_list X s h l))"
| "step X s (Put_transaction_history_index t n i) =
     Some (put_transaction_history_index X s t n i)"
| "step X s (Remove_transaction_history_index t n i) =
     Some (remove_transaction_history_index X s t n i)"
| "step X s (Put_transaction_history_index_from_block b) =
     Some (put_transaction_history_index_from_block X s b)"
| "step X s (Remove_transaction_history_index_from_block b) =
     Some (remove_transaction_history_index_from_block X s b)"
| "step X s (Put_minor_block_xshard_tx_list h l) =
     Some (Inr (put_minor_block_xshard_tx_list X s h l))"
| "step X s (Put k v) = Some (Inr (put s k v))"

text \<open>A sequence of calls, stopped by the first exception.\<close>

fun run :: "collab \<Rightarrow> shard_db_operator \<Rightarrow> op list \<Rightarrow> (error + shard_db_operator) option" where
  "run X s [] = Some (Inr s)"
| "run X s (c # cs) =
     (case step X s c of
        None \<Rightarrow> None
      | Some (Inl e) \<Rightarrow> Some (Inl e)
      | Some (Inr s') \<Rightarrow> run X s' cs)"

text \<open>The set \<open>height_to_minor_block_hashes[h]\<close>, empty when \<open>h\<close> is not a key.\<close>

definition hashes_at :: "shard_db_operator \<Rightarrow> int \<Rightarrow> bytes set" where
  "hashes_at s h = (case height_to_minor_block_hashes s h of None \<Rightarrow> {} | Some S \<Rightarrow> S)"

text \<open>The hashes of the blocks that the \<open>put_minor_block\<close> calls of a sequence
  store at height \<open>h\<close>.\<close>

fun put_hashes :: "collab \<Rightarrow> int \<Rightarrow> op list \<Rightarrow> bytes list" where
  "put_hashes X h [] = []"
| "put_hashes X h (Put_minor_block b xs # cs) =
     (if height (header b) = h then mheader_get_hash X (header b) # put_hashes X h cs
      else put_hashes X h cs)"
| "put_hashes X h (c # cs) = put_hashes X h cs"

abbreviation "hh \<equiv> height_to_minor_block_hashes"


section \<open>Stored chains\<close>

text \<open>
  The blocks the minor walk of \<open>recover_state\<close> meets from the hash \<open>h\<close>: each
  one is the block stored and deserialized under the current hash, and the
  next hash is its \<open>hash_prev_minor_block\<close>.
\<close>

fun stored_chain :: "collab \<Rightarrow> kvstore \<Rightarrow> bytes \<Rightarrow> minor_block list \<Rightarrow> bool" where
  "stored_chain X d h [] = True"
| "stored_chain X d h (b # bs) =
     ((case db_get d (''mblock_'' @ h) of
         None \<Rightarrow> False
       | Some data \<Rightarrow> mblock_deserialize X data = Some b)
      \<and> stored_chain X d (hash_prev_minor_block (header b)) bs)"

text \<open>The hashes under which the blocks of such a chain are stored.\<close>

fun chain_hashes :: "bytes \<Rightarrow> minor_block list \<Rightarrow> bytes list" where
  "chain_hashes h [] = []"
| "chain_hashes h (b # bs) = h # chain_hashes (hash_prev_minor_block (header b)) bs"

text \<open>The operator after the header and metadata of the visited blocks have been
  entered in the pools.\<close>

fun record_visited :: "shard_db_operator \<Rightarrow> bytes \<Rightarrow> minor_block list \<Rightarrow> shard_db_operator" where
  "record_visited s h [] = s"
| "record_visited s h (b # bs) =
     record_visited
       (s\<lparr>m_header_pool := (m_header_pool s)(h \<mapsto> header b),
          m_meta_pool := (m_meta_pool s)(h \<mapsto> meta b)\<rparr>)
       (hash_prev_minor_block (header b)) bs"

text \<open>
  The list \<open>bs\<close> is the list of blocks the minor walk of \<open>recover_state\<close> visits
  from the hash \<open>h\<close>, when \<open>P\<close> is the set of keys of the minor header pool and
  \<open>mx\<close> is \<open>max_minor_blocks_in_memory\<close>: each block is visited with fewer than
  \<open>mx\<close> keys in the pool, a block of height at most 0 is the last one, after any
  other block the walk goes on from the parent's hash with the current hash
  among the keys, and the walk ends without a further visit only when the pool
  has \<open>mx\<close> keys or more.
\<close>

fun walked :: "int \<Rightarrow> bytes set \<Rightarrow> bytes \<Rightarrow> minor_block list \<Rightarrow> bool" where
  "walked mx P h [] = (\<not> int (card P) < mx)"
| "walked mx P h (b # bs) =
     (int (card P) < mx \<and>
      (if height (header b) \<le> 0 then bs = []
       else walked mx (insert h P) (hash_prev_minor_block (header b)) bs))"


section \<open>A concrete instance\<close>

text \<open>
  Concrete collaborators on which the theorems below are instantiated. A
  minor block is identified by its height and creation time; the codecs
  round-trip on the blocks \<open>demo_block\<close> builds.
\<close>

definition demo_address :: address where
  "demo_address = \<lparr>recipient = replicate 20 (CHR 0x11), full_shard_key = 1\<rparr>"

definition demo_tx :: transaction where
  "demo_tx =
     \<lparr>to_evm_tx =
        \<lparr>evm_sender = replicate 20 (CHR 0x11), evm_from_full_shard_key = 1,
         evm_to = replicate 20 (CHR 0x22), evm_to_full_shard_key = 1,
         evm_value = 100, evm_gas_token_id = 0, evm_transfer_token_id = 0\<rparr>\<rparr>"

definition demo_hash :: "int \<Rightarrow> int \<Rightarrow> bytes" where
  "demo_hash n t = be_bytes 16 n @ be_bytes 16 t"

definition demo_block :: "int \<Rightarrow> int \<Rightarrow> nat \<Rightarrow> minor_block" where
  "demo_block n t c =
     \<lparr>header = \<lparr>height = n, hash_prev_minor_block = demo_hash (n - 1) 0, create_time = t\<rparr>,
      meta = \<lparr>hash_evm_state_root = be_bytes 32 n\<rparr>,
      tx_list = replicate c demo_tx\<rparr>"

definition demo_root_block :: "int \<Rightarrow> root_block" where
  "demo_root_block n =
     \<lparr>root_header = \<lparr>root_height = n, hash_prev_block = be_bytes 32 (n - 1)\<rparr>\<rparr>"

definition demo_deposit :: cross_shard_transaction_deposit where
  "demo_deposit =
     \<lparr>tx_hash = replicate 32 (CHR 0x33), from_address = demo_address,
      to_address = demo_address, deposit_value = 7, gas_token_id = 0,
      transfer_token_id = 0\<rparr>"

definition demo_collab :: collab where
  "demo_collab =
     \<lparr>mheader_get_hash = (\<lambda>h. demo_hash (height h) (create_time h)),
      rheader_get_hash = (\<lambda>h. be_bytes 32 (root_height h)),
      tx_get_hash = (\<lambda>t. be_bytes 32 (evm_value (to_evm_tx t))),
      mblock_serialize =
        (\<lambda>b. be_bytes 4 (height (header b)) @ be_bytes 4 (create_time (header b))
               @ be_bytes 4 (int (length (tx_list b)))),
      mblock_deserialize =
        (\<lambda>bs. if length bs = 12
               then Some (demo_block (from_bytes (take 4 bs))
                            (from_bytes (take 4 (drop 4 bs)))
                            (nat (from_bytes (drop 8 bs))))
               else None),
      rblock_serialize = (\<lambda>b. be_bytes 4 (root_height (root_header b))),
      rblock_deserialize =
        (\<lambda>bs. if length bs = 4 then Some (demo_root_block (from_bytes bs)) else None),
      xlist_serialize = (\<lambda>l. be_bytes 4 (int (length l))),
      xlist_deserialize =
        (\<lambda>bs. if length bs = 4 then Some (replicate (nat (from_bytes bs)) demo_deposit)
               else None),
      address_serialize = (\<lambda>a. recipient a @ be_bytes 4 (full_shard_key a)),
      get_receipt = (\<lambda>d b i. Some \<lparr>success = [CHR 0x01]\<rparr>),
      is_in_branch = (\<lambda>k. True)\<rparr>"

definition demo_env :: environment where
  "demo_env =
     \<lparr>ENABLE_TRANSACTION_HISTORY = True, max_root_blocks_in_memory = 5,
      max_minor_blocks_in_memory = 10, genesis_root_height = 0\<rparr>"


definition demo_key :: "int \<Rightarrow> bool \<Rightarrow> int \<Rightarrow> bytes" where
  "demo_key h c i =
     ''addr_'' @ address_serialize demo_collab demo_address @ be_bytes 4 h
       @ (if c then [CHR 0x00] else [CHR 0x01]) @ be_bytes 4 i"

text \<open>A store holding one block of height 3 with two transactions of
  \<open>demo_address\<close>, its positional index, the location of the transaction and
  the two history entries of the address.\<close>

definition demo_store :: kvstore where
  "demo_store =
     [(''mblock_'' @ demo_hash 3 0, mblock_serialize demo_collab (demo_block 3 0 2)),
      (''mi_'' @ decimal 3, demo_hash 3 0),
      (''txindex_'' @ tx_get_hash demo_collab demo_tx, be_bytes 4 3 @ be_bytes 4 1),
      (demo_key 3 False 0, []),
      (demo_key 3 False 1, [])]"


text \<open>Three blocks stored at height 5, the first then entered in the positional
  index.\<close>

definition demo_fork_ops :: "op list" where
  "demo_fork_ops =
     [Put_minor_block (demo_block 5 1 0) [],
      Put_minor_block (demo_block 5 2 0) [],
      Put_minor_block (demo_block 5 3 0) [],
      Put_minor_block_index (demo_block 5 1 0)]"


text \<open>A chain of blocks of heights \<open>n\<close>, \<open>n - 1\<close>, \<open>\<dots>\<close>, and a store that holds the 100
  blocks of heights 99 down to 0 together with the root block of height 0.\<close>

fun demo_chain_from :: "int \<Rightarrow> nat \<Rightarrow> minor_block list" where
  "demo_chain_from n 0 = []"
| "demo_chain_from n (Suc k) = demo_block n 0 0 # demo_chain_from (n - 1) k"

definition demo_chain_store :: kvstore where
  "demo_chain_store =
     (''rblock_'' @ be_bytes 32 0, rblock_serialize demo_collab (demo_root_block 0))
     # map (\<lambda>b. (''mblock_'' @ mheader_get_hash demo_collab (header b),
                  mblock_serialize demo_collab b)) (demo_chain_from 99 100)"


section \<open>Lemmas on byte strings\<close>

lemma length_be_bytes: "length (be_bytes l n) = l"
  by (induction l arbitrary: n) auto

lemma append_less_iff:
  fixes a b :: "'a::linorder list"
  shows "length a = length b \<Longrightarrow> (a @ x < b @ y) = (a < b \<or> (a = b \<and> x < y))"
  by (induction a b rule: list_induct2) auto

lemma append_le_iff:
  fixes a b :: "'a::linorder list"
  shows "length a = length b \<Longrightarrow> (a @ x \<le> b @ y) = (a < b \<or> (a = b \<and> x \<le> y))"
  by (induction a b rule: list_induct2) auto


lemma char_of_less_int:
  fixes a b :: int
  assumes "0 \<le> a" "a < 256" "0 \<le> b" "b < 256"
  shows "(char_of a < char_of b) = (a < b)"
proof -
  have "char_of a = char_of (nat a)" "char_of b = char_of (nat b)"
    using assms by (metis char_of_nat int_nat_eq)+
  then have "(char_of a < char_of b) = (nat a mod 256 < nat b mod 256)"
    by (simp add: less_char_def)
  then show ?thesis using assms by auto
qed

lemma char_of_less_mod:
  fixes a b :: int
  shows "(char_of a < char_of b) = (a mod 256 < b mod 256)"
proof -
  have "(char_of (a mod 256) < char_of (b mod 256)) = (a mod 256 < b mod 256)"
    by (rule char_of_less_int) simp_all
  then show ?thesis by simp
qed

lemma div_bounds:
  fixes n :: int
  assumes "0 \<le> n" "n < 256 ^ Suc l"
  shows "0 \<le> n div 256" "n div 256 < 256 ^ l"
  using assms by (auto simp: pos_imp_zdiv_nonneg_iff div_less_iff_less_mult)

lemma be_bytes_inj:
  "0 \<le> n \<Longrightarrow> n < 256 ^ l \<Longrightarrow> 0 \<le> m \<Longrightarrow> m < 256 ^ l \<Longrightarrow> (be_bytes l n = be_bytes l m) = (n = m)"
proof (induction l arbitrary: n m)
  case 0
  then show ?case by simp
next
  case (Suc l)
  have a: "0 \<le> n div 256" "n div 256 < 256 ^ l" "0 \<le> m div 256" "m div 256 < 256 ^ l"
    using Suc.prems div_bounds by blast+
  have "(be_bytes (Suc l) n = be_bytes (Suc l) m) = (n div 256 = m div 256 \<and> n mod 256 = m mod 256)"
    using Suc.IH [OF a] by (simp add: char_of_quasi_inj)
  also have "\<dots> = (n = m)"
    by (metis mult_div_mod_eq)
  finally show ?case .
qed

lemma be_bytes_less:
  "0 \<le> n \<Longrightarrow> n < 256 ^ l \<Longrightarrow> 0 \<le> m \<Longrightarrow> m < 256 ^ l \<Longrightarrow> (be_bytes l n < be_bytes l m) = (n < m)"
proof (induction l arbitrary: n m)
  case 0
  then show ?case by simp
next
  case (Suc l)
  have a: "0 \<le> n div 256" "n div 256 < 256 ^ l" "0 \<le> m div 256" "m div 256 < 256 ^ l"
    using Suc.prems div_bounds by blast+
  have "(be_bytes (Suc l) n < be_bytes (Suc l) m) =
        (n div 256 < m div 256 \<or> (n div 256 = m div 256 \<and> n mod 256 < m mod 256))"
    using Suc.IH [OF a] be_bytes_inj [OF a]
    by (simp add: append_less_iff length_be_bytes char_of_less_mod)
  also have "\<dots> = (n < m)"
  proof -
    have "n = 256 * (n div 256) + n mod 256" "m = 256 * (m div 256) + m mod 256" by simp_all
    moreover have "0 \<le> n mod 256" "n mod 256 < 256" "0 \<le> m mod 256" "m mod 256 < 256" by simp_all
    ultimately show ?thesis by arith
  qed
  finally show ?case .
qed


lemma to_bytes_4: "0 \<le> n \<Longrightarrow> n < 2 ^ 32 \<Longrightarrow> to_bytes n 4 = Inr (be_bytes 4 n)"
  by (simp add: to_bytes_def)

lemma encoded_key_less:
  assumes len: "length s1 = length s2"
    and r1: "0 \<le> h1" "h1 < 2 ^ 32" "0 \<le> i1" "i1 < 2 ^ 32"
    and r2: "0 \<le> h2" "h2 < 2 ^ 32" "0 \<le> i2" "i2 < 2 ^ 32"
  shows "(''addr_'' @ s1 @ be_bytes 4 h1 @ (if c1 then [CHR 0x00] else [CHR 0x01]) @ be_bytes 4 i1
        < ''addr_'' @ s2 @ be_bytes 4 h2 @ (if c2 then [CHR 0x00] else [CHR 0x01]) @ be_bytes 4 i2)
       = history_tuple_less (s1, h1, c1, i1) (s2, h2, c2, i2)"
proof -
  have p: "(''addr_'' @ u < ''addr_'' @ v) = (u < v)" for u v :: bytes
    by simp
  have h: "(be_bytes 4 h1 < be_bytes 4 h2) = (h1 < h2)" "(be_bytes 4 h1 = be_bytes 4 h2) = (h1 = h2)"
    using r1 r2 by (simp_all add: be_bytes_less be_bytes_inj del: be_bytes.simps)
  have i: "(be_bytes 4 i1 < be_bytes 4 i2) = (i1 < i2)"
    using r1 r2 by (simp add: be_bytes_less del: be_bytes.simps)
  have f: "((if c1 then [CHR 0x00] else [CHR 0x01]) @ x < (if c2 then [CHR 0x00] else [CHR 0x01]) @ y)
      = ((c1 \<and> \<not> c2) \<or> (c1 = c2 \<and> x < y))" for x y :: bytes
    by simp
  show ?thesis
    unfolding p history_tuple_less_def
    by (simp only: append_less_iff [OF len] append_less_iff [of "be_bytes 4 h1" "be_bytes 4 h2"]
         length_be_bytes h i f prod.case)
qed

lemma sorted_wrt_range_keys: "sorted_wrt (\<lambda>a b. b < a) (range_keys d start endk)"
proof -
  have "sorted_wrt (<) (sort (remdups (filter (\<lambda>k. endk < k \<and> k \<le> start) (map fst d))))"
    by (simp add: strict_sorted_iff)
  then show ?thesis
    unfolding range_keys_def by (simp add: sorted_wrt_rev)
qed

lemma set_range_keys: "set (range_keys d start endk) = {k \<in> fst ` set d. endk < k \<and> k \<le> start}"
  by (auto simp: range_keys_def)

lemma map_fst_reversed_range_iter: "map fst (reversed_range_iter d start endk) = range_keys d start endk"
  by (simp add: reversed_range_iter_def comp_def)

section \<open>C3: the address-history key preserves order\<close>

text \<open>
  Claim C3. For two tuples (address, height, flag, index) with heights and
  indexes in \<open>[0, 2^32)\<close> (and addresses of the one serialized width), the
  encoder returns keys whose byte-lexicographic order is the ascending
  lexicographic order of (address bytes, height, flag, index), a cross-shard
  entry (flag byte 0x00) before a local one (0x01); hence in a reverse range
  scan of the store a key of an address that comes earlier carries a height at
  least as large as a later one: the entries come newest first.
\<close>

theorem encode_key_order_preserving:
  assumes len: "length (address_serialize X a1) = length (address_serialize X a2)"
    and r1: "0 \<le> h1" "h1 < 2 ^ 32" "0 \<le> i1" "i1 < 2 ^ 32"
    and r2: "0 \<le> h2" "h2 < 2 ^ 32" "0 \<le> i2" "i2 < 2 ^ 32"
  shows "\<exists>k1 k2.
      encode_address_transaction_key X a1 h1 i1 c1 = Inr k1 \<and>
      encode_address_transaction_key X a2 h2 i2 c2 = Inr k2 \<and>
      (k1 < k2) = history_tuple_less (address_serialize X a1, h1, c1, i1)
                                     (address_serialize X a2, h2, c2, i2) \<and>
      (\<forall>d start endk p q.
          address_serialize X a1 = address_serialize X a2 \<and>
          p < q \<and> q < length (reversed_range_iter d start endk) \<and>
          fst (reversed_range_iter d start endk ! p) = k1 \<and>
          fst (reversed_range_iter d start endk ! q) = k2 \<longrightarrow> h2 \<le> h1)"
proof -
  let ?k1 = "''addr_'' @ address_serialize X a1 @ be_bytes 4 h1 @ (if c1 then [CHR 0x00] else [CHR 0x01]) @ be_bytes 4 i1"
  let ?k2 = "''addr_'' @ address_serialize X a2 @ be_bytes 4 h2 @ (if c2 then [CHR 0x00] else [CHR 0x01]) @ be_bytes 4 i2"
  have e1: "encode_address_transaction_key X a1 h1 i1 c1 = Inr ?k1"
    using r1 by (simp add: encode_address_transaction_key_def to_bytes_4 del: be_bytes.simps)
  have e2: "encode_address_transaction_key X a2 h2 i2 c2 = Inr ?k2"
    using r2 by (simp add: encode_address_transaction_key_def to_bytes_4 del: be_bytes.simps)
  have o: "(?k1 < ?k2) = history_tuple_less (address_serialize X a1, h1, c1, i1)
                                     (address_serialize X a2, h2, c2, i2)"
    by (rule encoded_key_less [OF len r1 r2])
  have o': "(?k2 < ?k1) = history_tuple_less (address_serialize X a2, h2, c2, i2)
                                     (address_serialize X a1, h1, c1, i1)"
    by (rule encoded_key_less [OF len [symmetric] r2 r1])
  have s: "h2 \<le> h1"
    if "address_serialize X a1 = address_serialize X a2" "p < q"
       "q < length (reversed_range_iter d start endk)"
       "fst (reversed_range_iter d start endk ! p) = ?k1"
       "fst (reversed_range_iter d start endk ! q) = ?k2"
    for d start endk p q
  proof -
    have l: "length (range_keys d start endk) = length (reversed_range_iter d start endk)"
      by (simp add: reversed_range_iter_def)
    have "range_keys d start endk ! p = ?k1" "range_keys d start endk ! q = ?k2"
      using that by (simp_all add: map_fst_reversed_range_iter [symmetric] del: be_bytes.simps)
    then have "?k2 < ?k1"
      using sorted_wrt_nth_less [OF sorted_wrt_range_keys [of d start endk] that(2)] that(3) l
      by simp
    then show ?thesis
      using that(1) unfolding o' history_tuple_less_def by auto
  qed
  show ?thesis
    using e1 e2 o s by blast
qed

theorem encode_key_order_preserving_witness:
  "\<exists>k1 k2.
     encode_address_transaction_key demo_collab demo_address 5 0 False = Inr k1 \<and>
     encode_address_transaction_key demo_collab demo_address 7 1 True = Inr k2 \<and>
     k1 < k2 \<and>
     map fst (reversed_range_iter [(k1, []), (k2, [])]
                (''addr_'' @ address_serialize demo_collab demo_address @ [CHR 0xFF])
                (''addr_'' @ address_serialize demo_collab demo_address)) = [k2, k1] \<and>
     (5::int) \<le> 7"
proof -
  from encode_key_order_preserving [of demo_collab demo_address demo_address 5 0 7 1 False True]
  obtain k1 k2 where
    e1: "encode_address_transaction_key demo_collab demo_address 5 0 False = Inr k1" and
    e2: "encode_address_transaction_key demo_collab demo_address 7 1 True = Inr k2" and
    o: "(k1 < k2) = history_tuple_less (address_serialize demo_collab demo_address, 5, False, 0)
                      (address_serialize demo_collab demo_address, 7, True, 1)"
    by auto
  have lt: "k1 < k2"
    unfolding o by (simp add: history_tuple_less_def)
  have v1: "encode_address_transaction_key demo_collab demo_address 5 0 False =
      Inr (''addr_'' @ replicate 20 (CHR 0x11) @ [CHR 0x00, CHR 0x00, CHR 0x00, CHR 0x01]
           @ [CHR 0x00, CHR 0x00, CHR 0x00, CHR 0x05, CHR 0x01, CHR 0x00, CHR 0x00, CHR 0x00, CHR 0x00])"
    by code_simp
  have v2: "encode_address_transaction_key demo_collab demo_address 7 1 True =
      Inr (''addr_'' @ replicate 20 (CHR 0x11) @ [CHR 0x00, CHR 0x00, CHR 0x00, CHR 0x01]
           @ [CHR 0x00, CHR 0x00, CHR 0x00, CHR 0x07, CHR 0x00, CHR 0x00, CHR 0x00, CHR 0x00, CHR 0x01])"
    by code_simp
  have k: "k1 = ''addr_'' @ replicate 20 (CHR 0x11) @ [CHR 0x00, CHR 0x00, CHR 0x00, CHR 0x01]
           @ [CHR 0x00, CHR 0x00, CHR 0x00, CHR 0x05, CHR 0x01, CHR 0x00, CHR 0x00, CHR 0x00, CHR 0x00]"
      "k2 = ''addr_'' @ replicate 20 (CHR 0x11) @ [CHR 0x00, CHR 0x00, CHR 0x00, CHR 0x01]
           @ [CHR 0x00, CHR 0x00, CHR 0x00, CHR 0x07, CHR 0x00, CHR 0x00, CHR 0x00, CHR 0x00, CHR 0x01]"
    using e1 e2 unfolding v1 v2 by simp_all
  have sc: "map fst (reversed_range_iter [(k1, []), (k2, [])]
                (''addr_'' @ address_serialize demo_collab demo_address @ [CHR 0xFF])
                (''addr_'' @ address_serialize demo_collab demo_address)) = [k2, k1]"
    unfolding k by code_simp
  show ?thesis using e1 e2 lt sc by simp
qed

section \<open>Lemmas on the store and the counts\<close>

lemma from_bytes_snoc: "from_bytes (bs @ [c]) = from_bytes bs * 256 + of_char c"
  by (simp add: from_bytes_def)

lemma from_bytes_Nil: "from_bytes [] = 0"
  by (simp add: from_bytes_def)

lemma of_char_of_int: "(of_char (char_of (n::int)) :: int) = n mod 256"
  by simp

lemma from_bytes_be_bytes:
  "0 \<le> n \<Longrightarrow> n < 256 ^ l \<Longrightarrow> from_bytes (be_bytes l n) = n"
proof (induction l arbitrary: n)
  case 0
  then show ?case by (simp add: from_bytes_Nil)
next
  case (Suc l)
  have "from_bytes (be_bytes l (n div 256)) = n div 256"
    using Suc.prems div_bounds [of n l] by (intro Suc.IH) auto
  then show ?case
    by (simp add: from_bytes_snoc)
qed

lemma from_bytes_nonneg: "0 \<le> from_bytes bs"
proof (induction bs rule: rev_induct)
  case Nil
  then show ?case by (simp add: from_bytes_Nil)
next
  case (snoc c bs)
  have "(of_char c :: int) = int (of_char c)" by (simp only: of_nat_of_char)
  then have "(0::int) \<le> of_char c" by simp
  with snoc show ?case by (simp add: from_bytes_snoc)
qed

lemma db_get_put: "db_get (db_put d k v) k' = (if k' = k then Some v else db_get d k')"
  by (simp add: db_get_def db_put_def update_conv')

lemma db_get_remove: "db_get (db_remove d k) k' = (if k' = k then None else db_get d k')"
  by (simp add: db_get_def db_remove_def delete_conv')

lemma get_total_tx_count_nonneg: "0 \<le> get_total_tx_count s h"
  by (simp add: get_total_tx_count_def from_bytes_nonneg split: option.splits)

lemma be_bytes_4_nonempty: "be_bytes 4 n \<noteq> []"
  using length_be_bytes [of 4 n] by (metis length_0_conv zero_neq_numeral)

lemma put_total_tx_count_ok:
  assumes c: "c = (if height (header b) > 2
                   then get_total_tx_count s (hash_prev_minor_block (header b)) else 0)
                  + int (length (tx_list b))"
    and lt: "c < 2 ^ 32"
  shows "put_total_tx_count X s b =
           Inr (s\<lparr>db := db_put (db s) (''tx_count_'' @ mheader_get_hash X (header b)) (be_bytes 4 c)\<rparr>)"
proof -
  have "0 \<le> c" using c get_total_tx_count_nonneg [of s] by simp
  then have "to_bytes c 4 = Inr (be_bytes 4 c)" using lt by (simp add: to_bytes_4)
  then show ?thesis
    unfolding put_total_tx_count_def Let_def c [symmetric] by simp
qed

lemma put_total_tx_count_overflow:
  assumes c: "c = (if height (header b) > 2
                   then get_total_tx_count s (hash_prev_minor_block (header b)) else 0)
                  + int (length (tx_list b))"
    and ge: "2 ^ 32 \<le> c"
  shows "put_total_tx_count X s b = Inl OverflowError"
proof -
  have "to_bytes c 4 = Inl OverflowError" using ge by (simp add: to_bytes_def)
  then show ?thesis
    unfolding put_total_tx_count_def Let_def c [symmetric] by simp
qed

lemma get_total_tx_count_stored:
  assumes "db_get (db s) (''tx_count_'' @ h) = Some (be_bytes 4 c)" "0 \<le> c" "c < 2 ^ 32"
  shows "get_total_tx_count s h = c"
  using assms be_bytes_4_nonempty [of c]
  by (simp add: get_total_tx_count_def from_bytes_be_bytes del: be_bytes.simps)

lemma get_total_tx_count_db_cong:
  "db_get (db s) (''tx_count_'' @ h) = db_get (db s') (''tx_count_'' @ h)
   \<Longrightarrow> get_total_tx_count s h = get_total_tx_count s' h"
  by (simp add: get_total_tx_count_def)

lemma demo_block_simps:
  "height (header (demo_block n t c)) = n"
  "hash_prev_minor_block (header (demo_block n t c)) = demo_hash (n - 1) 0"
  "create_time (header (demo_block n t c)) = t"
  "length (tx_list (demo_block n t c)) = c"
  "mheader_get_hash demo_collab (header (demo_block n t c)) = demo_hash n t"
  by (simp_all add: demo_block_def demo_collab_def)

section \<open>C1: the cumulative transaction count\<close>

lemma put_confirmed_tx_count:
  "db_get (db (put_confirmed_cross_shard_transaction_deposit_list X s h l)) (''tx_count_'' @ k)
     = db_get (db s) (''tx_count_'' @ k)"
  by (simp add: put_confirmed_cross_shard_transaction_deposit_list_def db_get_put)

lemma put_minor_block_cases:
  fixes X s b xs
  defines "c \<equiv> (if 2 < height (header b)
                 then get_total_tx_count s (hash_prev_minor_block (header b)) else 0)
                + int (length (tx_list b))"
  shows "(c < 2 ^ 32 \<longrightarrow>
           (\<exists>s'. put_minor_block X s b xs = Inr s' \<and>
                 db_get (db s') (''tx_count_'' @ mheader_get_hash X (header b)) = Some (be_bytes 4 c)))
       \<and> (2 ^ 32 \<le> c \<longrightarrow> put_minor_block X s b xs = Inl OverflowError)"
proof -
  let ?s1 = "s\<lparr>db := db_put (db s) (''mblock_'' @ mheader_get_hash X (header b))
                          (mblock_serialize X b)\<rparr>"
  have g: "get_total_tx_count ?s1 h = get_total_tx_count s h" for h
    by (rule get_total_tx_count_db_cong) (simp add: db_get_put)
  have c1: "c = (if 2 < height (header b)
                 then get_total_tx_count ?s1 (hash_prev_minor_block (header b)) else 0)
                + int (length (tx_list b))"
    unfolding g c_def ..
  show ?thesis
  proof (intro conjI impI)
    assume lt: "c < 2 ^ 32"
    have "put_total_tx_count X ?s1 b =
           Inr (?s1\<lparr>db := db_put (db ?s1) (''tx_count_'' @ mheader_get_hash X (header b)) (be_bytes 4 c)\<rparr>)"
      by (rule put_total_tx_count_ok [OF c1 lt])
    then show "\<exists>s'. put_minor_block X s b xs = Inr s' \<and>
                 db_get (db s') (''tx_count_'' @ mheader_get_hash X (header b)) = Some (be_bytes 4 c)"
      unfolding put_minor_block_def Let_def
      by (simp add: put_confirmed_cross_shard_transaction_deposit_list_def db_get_put
            del: be_bytes.simps)
  next
    assume ge: "2 ^ 32 \<le> c"
    have "put_total_tx_count X ?s1 b = Inl OverflowError"
      by (rule put_total_tx_count_overflow [OF c1 ge])
    then show "put_minor_block X s b xs = Inl OverflowError"
      unfolding put_minor_block_def Let_def by simp
  qed
qed

text \<open>
  Claim C1. Whenever \<open>put_minor_block\<close> returns, the count recorded under the
  block's hash is the stored count of the parent plus the length of the
  block's transaction list when the height is above 2, and the length alone
  when the height is at most 2; \<open>get_total_tx_count\<close> of the block's hash then
  returns this count. The call returns whenever the count fits the four bytes
  of the record.
\<close>

theorem put_minor_block_total_tx_count:
  "let c = (if 2 < height (header b)
            then get_total_tx_count s (hash_prev_minor_block (header b)) else 0)
           + int (length (tx_list b))
   in (\<forall>s'. put_minor_block X s b xs = Inr s' \<longrightarrow>
          db_get (db s') (''tx_count_'' @ mheader_get_hash X (header b)) = Some (be_bytes 4 c) \<and>
          get_total_tx_count s' (mheader_get_hash X (header b)) = c)
    \<and> (c < 2 ^ 32 \<longrightarrow> (\<exists>s'. put_minor_block X s b xs = Inr s'))"
proof -
  let ?c = "(if 2 < height (header b)
            then get_total_tx_count s (hash_prev_minor_block (header b)) else 0)
           + int (length (tx_list b))"
  note pc = put_minor_block_cases [of b s X xs]
  have nn: "0 \<le> ?c" using get_total_tx_count_nonneg [of s] by simp
  have a: "db_get (db s') (''tx_count_'' @ mheader_get_hash X (header b)) = Some (be_bytes 4 ?c) \<and>
          get_total_tx_count s' (mheader_get_hash X (header b)) = ?c"
    if r: "put_minor_block X s b xs = Inr s'" for s'
  proof (cases "?c < 2 ^ 32")
    case True
    then have d: "db_get (db s') (''tx_count_'' @ mheader_get_hash X (header b)) = Some (be_bytes 4 ?c)"
      using pc r by auto
    then show ?thesis
      using get_total_tx_count_stored [OF d nn True] by simp
  next
    case False
    then have "put_minor_block X s b xs = Inl OverflowError" using pc by auto
    with r show ?thesis by simp
  qed
  have b: "\<exists>s'. put_minor_block X s b xs = Inr s'" if "?c < 2 ^ 32"
    using pc that by blast
  show ?thesis unfolding Let_def using a b by blast
qed

theorem put_minor_block_total_tx_count_witness:
  "\<exists>s1 s2. put_minor_block demo_collab (init [] demo_env) (demo_block 2 0 5) [] = Inr s1 \<and>
           put_minor_block demo_collab s1 (demo_block 3 0 2) [] = Inr s2 \<and>
           get_total_tx_count s1 (demo_hash 2 0) = 5 \<and>
           get_total_tx_count s2 (demo_hash 3 0) = 7"
proof -
  from put_minor_block_total_tx_count [of "demo_block 2 0 5" "init [] demo_env" demo_collab "[]"]
  obtain s1 where
    s1: "put_minor_block demo_collab (init [] demo_env) (demo_block 2 0 5) [] = Inr s1"
    and c1: "get_total_tx_count s1 (demo_hash 2 0) = 5"
    by (auto simp: Let_def demo_block_simps)
  from put_minor_block_total_tx_count [of "demo_block 3 0 2" s1 demo_collab "[]"] c1
  obtain s2 where
    s2: "put_minor_block demo_collab s1 (demo_block 3 0 2) [] = Inr s2"
    and c2: "get_total_tx_count s2 (demo_hash 3 0) = 7"
    by (auto simp: Let_def demo_block_simps)
  show ?thesis using s1 s2 c1 c2 by blast
qed

section \<open>C9: a missing count reads as zero\<close>

text \<open>
  Claim C9. A hash with no stored \<open>tx_count_\<close> entry has total count 0; so
  \<open>put_total_tx_count\<close> on a block of height above 2 whose parent has no
  stored count returns and records just the length of the block's own
  transaction list.
\<close>

theorem missing_count_is_zero:
  "(db_get (db s) (''tx_count_'' @ h) = None \<longrightarrow> get_total_tx_count s h = 0) \<and>
   (2 < height (header b) \<and>
    db_get (db s) (''tx_count_'' @ hash_prev_minor_block (header b)) = None \<and>
    int (length (tx_list b)) < 2 ^ 32 \<longrightarrow>
      (\<exists>s'. put_total_tx_count X s b = Inr s' \<and>
            get_total_tx_count s' (mheader_get_hash X (header b)) = int (length (tx_list b))))"
proof (intro conjI impI)
  assume "db_get (db s) (''tx_count_'' @ h) = None"
  then show "get_total_tx_count s h = 0" by (simp add: get_total_tx_count_def)
next
  assume a: "2 < height (header b) \<and>
    db_get (db s) (''tx_count_'' @ hash_prev_minor_block (header b)) = None \<and>
    int (length (tx_list b)) < 2 ^ 32"
  let ?c = "int (length (tx_list b))"
  have p: "get_total_tx_count s (hash_prev_minor_block (header b)) = 0"
    using a by (simp add: get_total_tx_count_def)
  have "put_total_tx_count X s b =
     Inr (s\<lparr>db := db_put (db s) (''tx_count_'' @ mheader_get_hash X (header b)) (be_bytes 4 ?c)\<rparr>)"
    using a p by (intro put_total_tx_count_ok) auto
  moreover have "get_total_tx_count
       (s\<lparr>db := db_put (db s) (''tx_count_'' @ mheader_get_hash X (header b)) (be_bytes 4 ?c)\<rparr>)
       (mheader_get_hash X (header b)) = ?c"
    using a by (intro get_total_tx_count_stored) (auto simp: db_get_put simp del: be_bytes.simps)
  ultimately show "\<exists>s'. put_total_tx_count X s b = Inr s' \<and>
            get_total_tx_count s' (mheader_get_hash X (header b)) = int (length (tx_list b))"
    by simp
qed

theorem missing_count_is_zero_witness:
  "db_get (db (init [] demo_env)) (''tx_count_'' @ demo_hash 2 0) = None \<and>
   get_total_tx_count (init [] demo_env) (demo_hash 2 0) = 0 \<and>
   (\<exists>s'. put_total_tx_count demo_collab (init [] demo_env) (demo_block 3 0 2) = Inr s' \<and>
         get_total_tx_count s' (demo_hash 3 0) = 2)"
  using missing_count_is_zero [of "init [] demo_env" "demo_hash 2 0" "demo_block 3 0 2" demo_collab]
  by (simp add: demo_block_simps init_def db_get_def)

section \<open>C8: the subscript read\<close>

lemma getitem_Some_False:
  assumes "getitem s key = Some y" shows False
  by (rule getitem.raw_induct [where P = "\<lambda>_ _ _. False", OF _ assms]) blast

text \<open>
  Claim C8. For every key the subscript read \<open>__getitem__\<close> does not return:
  its body calls \<open>__getitem__\<close> again on the same arguments, and never reaches the
  store.
\<close>

theorem getitem_never_returns: "getitem s key = None"
  using getitem_Some_False [of s key] by (cases "getitem s key") auto

section \<open>Lemmas on the address-history scan\<close>

lemma of_char_int_bounds: "(0::int) \<le> of_char c" "(of_char c :: int) < 256"
proof -
  have e: "(of_char c :: int) = int (of_char c)" by (simp only: of_nat_of_char)
  show "(0::int) \<le> of_char c" unfolding e by simp
  have "(of_char c :: nat) < 256" by simp
  then show "(of_char c :: int) < 256" unfolding e by linarith
qed

lemma from_bytes_lt: "from_bytes bs < 256 ^ length bs"
proof (induction bs rule: rev_induct)
  case Nil
  then show ?case by (simp add: from_bytes_Nil)
next
  case (snoc c bs)
  have "from_bytes bs * 256 + of_char c < (from_bytes bs + 1) * 256"
    using of_char_int_bounds [of c] by (simp add: algebra_simps)
  also have "\<dots> \<le> 256 ^ length bs * 256"
    using snoc by (intro mult_right_mono) auto
  finally show ?case by (simp add: from_bytes_snoc)
qed

lemma from_bytes_Cons: "from_bytes (c # bs) = of_char c * 256 ^ length bs + from_bytes bs"
proof (induction bs rule: rev_induct)
  case Nil
  then show ?case by (simp add: from_bytes_def)
next
  case (snoc x bs)
  have "from_bytes (c # bs @ [x]) = from_bytes (c # bs) * 256 + of_char x"
    using from_bytes_snoc [of "c # bs" x] by simp
  then show ?case
    by (simp add: snoc from_bytes_snoc algebra_simps)
qed

lemma be_bytes_from_bytes: "be_bytes (length bs) (from_bytes bs) = bs"
proof (induction bs rule: rev_induct)
  case Nil
  then show ?case by simp
next
  case (snoc c bs)
  have d: "(from_bytes bs * 256 + of_char c) div 256 = from_bytes bs"
    using of_char_int_bounds [of c] by (simp add: div_pos_pos_trivial)
  have m: "(from_bytes bs * 256 + of_char c) mod 256 = of_char c"
    using of_char_int_bounds [of c] by (simp add: mod_pos_pos_trivial)
  have c: "char_of (of_char c :: int) = c" by simp
  show ?case
    using snoc by (simp add: from_bytes_snoc d m c)
qed

lemma less_iff_from_bytes:
  assumes "length a = length b"
  shows "(a < b) = (from_bytes a < from_bytes b)"
proof -
  have "(be_bytes (length a) (from_bytes a) < be_bytes (length a) (from_bytes b))
          = (from_bytes a < from_bytes b)"
    using from_bytes_lt [of a] from_bytes_lt [of b] assms
    by (intro be_bytes_less) (simp_all add: from_bytes_nonneg)
  then show ?thesis
    using be_bytes_from_bytes [of a] be_bytes_from_bytes [of b] assms by simp
qed

lemma le_iff_from_bytes:
  assumes "length a = length b"
  shows "(a \<le> b) = (from_bytes a \<le> from_bytes b)"
  using less_iff_from_bytes [OF assms [symmetric]] by (simp add: not_less [symmetric])

lemma addr_prefix_bound: "from_bytes (''addr_'' @ sa) + 1 < 256 ^ length (''addr_'' @ sa)"
proof -
  define P :: int where "P = 256 ^ length (''ddr_'' @ sa)"
  have e: "from_bytes (''addr_'' @ sa) = 97 * P + from_bytes (''ddr_'' @ sa)"
    using from_bytes_Cons [of "CHR ''a''" "''ddr_'' @ sa"] unfolding P_def by simp
  have r: "from_bytes (''ddr_'' @ sa) < P"
    unfolding P_def by (rule from_bytes_lt)
  have p: "1 \<le> P" unfolding P_def by (rule one_le_power) simp
  have l: "(256::int) ^ length (''addr_'' @ sa) = 256 * P"
    unfolding P_def by simp
  show ?thesis unfolding l e using r p by linarith
qed

lemma above_addr_prefix_pos:
  assumes "''addr_'' @ sa < k"
  shows "0 < from_bytes k"
proof (cases k)
  case Nil
  with assms show ?thesis by simp
next
  case (Cons c k')
  with assms have "CHR ''a'' \<le> c" by (auto simp: less_le)
  then have "(97::nat) \<le> of_char c" by (simp add: less_eq_char_def)
  then have "(97::int) \<le> of_char c"
    by (metis of_nat_of_char of_nat_le_iff of_nat_numeral)
  moreover have "(1::int) \<le> 256 ^ length k'" by simp
  ultimately have "(1::int) * 1 \<le> of_char c * 256 ^ length k'"
    by (intro mult_mono) auto
  then have "(1::int) \<le> of_char c * 256 ^ length k'" by simp
  then show ?thesis
    using from_bytes_nonneg [of k'] by (simp add: Cons from_bytes_Cons)
qed

lemma scan_range_ok:
  "scan_range X s addr start =
     Inr (reversed_range_iter (db s)
            (scan_start start (original_start_of (''addr_'' @ address_serialize X addr)))
            (''addr_'' @ address_serialize X addr))"
proof -
  have "to_bytes (from_bytes (''addr_'' @ address_serialize X addr) + 1)
          (length (''addr_'' @ address_serialize X addr))
        = Inr (original_start_of (''addr_'' @ address_serialize X addr))"
    using addr_prefix_bound [of "address_serialize X addr"]
          from_bytes_nonneg [of "''addr_'' @ address_serialize X addr"]
    unfolding to_bytes_def original_start_of_def by (simp del: be_bytes.simps) 
  then show ?thesis
    unfolding scan_range_def Let_def by (simp del: be_bytes.simps)
qed

lemma scan_rows_result:
  "scan_rows X s kvs limit txs nxt = Inr (rows, cur) \<Longrightarrow>
     length rows = length txs + min (nat limit) (length kvs) \<and>
     take (length txs) rows = txs \<and>
     map Inr (drop (length txs) rows)
       = map (\<lambda>kv. transaction_detail_of_key X s (fst kv)) (take (min (nat limit) (length kvs)) kvs) \<and>
     (min (nat limit) (length kvs) = 0 \<longrightarrow> cur = nxt) \<and>
     (0 < min (nat limit) (length kvs) \<longrightarrow>
        to_bytes (from_bytes (fst (kvs ! (min (nat limit) (length kvs) - 1))) - 1)
                 (length (fst (kvs ! (min (nat limit) (length kvs) - 1)))) = Inr cur)"
proof (induction kvs arbitrary: limit txs nxt)
  case Nil
  then show ?case by simp
next
  case (Cons kv kvs)
  obtain k v where kv: "kv = (k, v)" by (cases kv)
  show ?case
  proof (cases "limit - 1 < 0")
    case True
    then have "nat limit = 0" by simp
    with Cons.prems True show ?thesis by (simp add: kv)
  next
    case False
    then have lim: "nat limit = Suc (nat (limit - 1))" by linarith
    from Cons.prems False obtain d nxt' where
      d: "transaction_detail_of_key X s k = Inr d" and
      n: "to_bytes (from_bytes k - 1) (length k) = Inr nxt'" and
      r: "scan_rows X s kvs (limit - 1) (txs @ [d]) nxt' = Inr (rows, cur)"
      by (auto simp: kv split: sum.splits)
    note ih = Cons.IH [OF r]
    let ?m = "min (nat (limit - 1)) (length kvs)"
    have m: "min (nat limit) (length (kv # kvs)) = Suc ?m"
      using lim by simp
    have len: "length rows = length txs + Suc ?m" using ih by simp
    have tk: "take (length txs) rows = txs"
    proof -
      have "take (length txs) (take (length (txs @ [d])) rows) = take (length txs) (txs @ [d])"
        using ih by simp
      then show ?thesis by (simp add: min_def)
    qed
    have nth: "rows ! length txs = d"
    proof -
      have "take (Suc (length txs)) rows = txs @ [d]" using ih by simp
      then have "(take (Suc (length txs)) rows) ! length txs = d" by simp
      then show ?thesis by simp
    qed
    have dr: "drop (length txs) rows = d # drop (Suc (length txs)) rows"
      using len nth by (metis Cons_nth_drop_Suc add_Suc_right less_add_Suc1)
    have mp: "map Inr (drop (length txs) rows)
       = map (\<lambda>kv. transaction_detail_of_key X s (fst kv)) (take (Suc ?m) (kv # kvs))"
      using ih d unfolding dr by (simp add: kv)
    have c0: "?m = 0 \<longrightarrow> cur = nxt'" using ih by simp
    have c1: "0 < ?m \<longrightarrow> to_bytes (from_bytes (fst (kvs ! (?m - 1))) - 1)
                 (length (fst (kvs ! (?m - 1)))) = Inr cur" using ih by simp
    have cu: "to_bytes (from_bytes (fst ((kv # kvs) ! (Suc ?m - 1))) - 1)
                 (length (fst ((kv # kvs) ! (Suc ?m - 1)))) = Inr cur"
    proof (cases "?m = 0")
      case True
      then show ?thesis using c0 n by (simp add: kv)
    next
      case False
      then obtain j where j: "?m = Suc j" by (cases ?m) auto
      then show ?thesis using c1 by simp
    qed
    show ?thesis unfolding m using len tk mp cu by simp
  qed
qed

lemma scan_rows_no_rows:
  "kvs = [] \<or> limit \<le> 0 \<Longrightarrow> scan_rows X s kvs limit txs nxt = Inr (txs, nxt)"
  by (cases kvs) auto

lemma scan_start_le: "scan_start start os \<le> os"
  unfolding scan_start_def using linorder_not_less [of os start] by auto

lemma range_keys_bounds: "k \<in> set (range_keys d a e) \<Longrightarrow> e < k \<and> k \<le> a"
  by (simp add: set_range_keys)

lemma range_keys_filter:
  assumes "a \<le> b"
  shows "range_keys d a e = filter (\<lambda>k. k \<le> a) (range_keys d b e)"
proof -
  have "(\<lambda>k. e < k \<and> k \<le> b \<and> k \<le> a) = (\<lambda>k. e < k \<and> k \<le> a)"
    using assms by auto
  then show ?thesis
    unfolding range_keys_def
    by (simp add: rev_filter [symmetric] filter_sort remdups_filter [symmetric])
qed

lemma length_reversed_range_iter:
  "length (reversed_range_iter d a e) = length (range_keys d a e)"
  by (simp add: reversed_range_iter_def)

lemma fst_nth_reversed_range_iter:
  "i < length (range_keys d a e) \<Longrightarrow> fst (reversed_range_iter d a e ! i) = range_keys d a e ! i"
  by (simp add: reversed_range_iter_def)

lemma cursor_below:
  assumes k: "''addr_'' @ sa < k"
    and c: "to_bytes (from_bytes k - 1) (length k) = Inr cur"
  shows "length cur = length k" "from_bytes cur = from_bytes k - 1" "cur < k" "cur \<noteq> []"
proof -
  have pos: "0 < from_bytes k" by (rule above_addr_prefix_pos [OF k])
  have lt: "from_bytes k - 1 < 256 ^ length k" using from_bytes_lt [of k] by simp
  have cur: "cur = be_bytes (length k) (from_bytes k - 1)"
    using c pos lt by (simp add: to_bytes_def split: if_splits)
  show l: "length cur = length k" unfolding cur by (rule length_be_bytes)
  show f: "from_bytes cur = from_bytes k - 1"
    unfolding cur using pos lt by (intro from_bytes_be_bytes) auto
  show "cur < k" using less_iff_from_bytes [OF l] f by simp
  have "k \<noteq> []" using k by auto
  then show "cur \<noteq> []" using l by auto
qed

lemma keys_above_cursor:
  assumes l: "length cur = length k" and f: "from_bytes cur = from_bytes k - 1"
    and lx: "length x = length k"
  shows "(x \<le> cur) = (x < k)"
proof -
  have "(x \<le> cur) = (from_bytes x \<le> from_bytes cur)"
    using le_iff_from_bytes [of x cur] l lx by simp
  also have "\<dots> = (from_bytes x < from_bytes k)" using f by auto
  also have "\<dots> = (x < k)" using less_iff_from_bytes [OF lx] by simp
  finally show ?thesis .
qed

lemma filter_desc_eq_drop:
  fixes L :: "'a::linorder list"
  assumes s: "sorted_wrt (\<lambda>a b. b < a) L"
    and n: "0 < n" "n \<le> length L"
    and P: "\<And>x. x \<in> set L \<Longrightarrow> P x = (x < L ! (n - 1))"
  shows "filter P L = drop n L"
proof -
  have L: "L = take n L @ drop n L" by simp
  have a: "\<not> P x" if "x \<in> set (take n L)" for x
  proof -
    from that obtain i where i: "i < n" "x = L ! i"
      using n by (auto simp: in_set_conv_nth)
    have "L ! (n - 1) \<le> L ! i"
    proof (cases "i = n - 1")
      case True
      then show ?thesis by simp
    next
      case False
      then have "i < n - 1" using i by simp
      then have "L ! (n - 1) < L ! i"
        using sorted_wrt_nth_less [OF s, of i "n - 1"] n by simp
      then show ?thesis by simp
    qed
    moreover have "x \<in> set L" using that by (rule in_set_takeD)
    ultimately show ?thesis using P i by auto
  qed
  have b: "P x" if "x \<in> set (drop n L)" for x
  proof -
    from that obtain j where j: "j < length L - n" "x = L ! (n + j)"
      by (auto simp: in_set_conv_nth)
    have "L ! (n + j) < L ! (n - 1)"
      using sorted_wrt_nth_less [OF s, of "n - 1" "n + j"] n j by simp
    moreover have "x \<in> set L" using that by (rule in_set_dropD)
    ultimately show ?thesis using P j by auto
  qed
  have "filter P L = filter P (take n L) @ filter P (drop n L)"
    by (metis L filter_append)
  also have "filter P (take n L) = []" using a by (simp add: filter_empty_conv)
  also have "filter P (drop n L) = drop n L" using b by (simp add: filter_id_conv)
  finally show ?thesis by simp
qed

lemma get_transactions_enabled:
  assumes "ENABLE_TRANSACTION_HISTORY (env s)" "scan_range X s addr start = Inr kvs"
  shows "get_transactions_by_address X s addr start limit =
           scan_rows X s kvs limit [] (''addr_'' @ address_serialize X addr)"
  using assms by (simp add: get_transactions_by_address_def)

lemma scan_range_keys:
  assumes "scan_range X s addr start = Inr kvs" "i < length kvs"
  shows "''addr_'' @ address_serialize X addr < fst (kvs ! i)"
    and "fst (kvs ! i) \<le> scan_start start (original_start_of (''addr_'' @ address_serialize X addr))"
proof -
  let ?e = "''addr_'' @ address_serialize X addr"
  let ?a = "scan_start start (original_start_of ?e)"
  have kvs: "kvs = reversed_range_iter (db s) ?a ?e"
    using assms(1) unfolding scan_range_ok by simp
  have i: "i < length (range_keys (db s) ?a ?e)"
    using assms(2) unfolding kvs length_reversed_range_iter .
  have "range_keys (db s) ?a ?e ! i \<in> set (range_keys (db s) ?a ?e)"
    using i by simp
  then have "?e < range_keys (db s) ?a ?e ! i \<and> range_keys (db s) ?a ?e ! i \<le> ?a"
    by (rule range_keys_bounds)
  then show "?e < fst (kvs ! i)" "fst (kvs ! i) \<le> ?a"
    unfolding kvs fst_nth_reversed_range_iter [OF i] by simp_all
qed

lemma demo_enabled: "ENABLE_TRANSACTION_HISTORY (env (init d demo_env))"
  by (simp add: init_def demo_env_def)

lemma demo_scan_range:
  "scan_range demo_collab (init demo_store demo_env) demo_address []
     = Inr [(demo_key 3 False 1, []), (demo_key 3 False 0, [])]"
  by code_simp

lemma demo_scan_returns:
  "(case get_transactions_by_address demo_collab (init demo_store demo_env) demo_address [] 1 of
      Inl e \<Rightarrow> False | Inr r \<Rightarrow> True)"
  by code_simp

lemma demo_scan_returns_10:
  "(case get_transactions_by_address demo_collab (init demo_store demo_env) demo_address [] 10 of
      Inl e \<Rightarrow> False | Inr r \<Rightarrow> True)"
  by code_simp

lemma length_demo_key: "length (demo_key h c i) = 38"
  by (simp add: demo_key_def demo_collab_def demo_address_def length_be_bytes del: be_bytes.simps)


section \<open>C10: the cursor of a scan that consumes no row\<close>

text \<open>
  Claim C10. With the history flag enabled, a scan that consumes no row (no
  key in the scanned range, or no row allowed by the limit) returns the
  exclusive bound \<open>b"addr_" + address.serialize()\<close> as cursor; no call with the
  flag enabled returns the empty cursor, and a call with the flag disabled
  returns the empty page with the empty cursor.
\<close>

theorem no_rows_cursor_is_prefix:
  "(ENABLE_TRANSACTION_HISTORY (env s) \<and> (scan_range X s addr start = Inr [] \<or> limit \<le> 0)
      \<longrightarrow> get_transactions_by_address X s addr start limit
            = Inr ([], ''addr_'' @ address_serialize X addr)) \<and>
   (ENABLE_TRANSACTION_HISTORY (env s)
      \<longrightarrow> (\<forall>rows cur. get_transactions_by_address X s addr start limit = Inr (rows, cur)
             \<longrightarrow> cur \<noteq> [])) \<and>
   (\<not> ENABLE_TRANSACTION_HISTORY (env s)
      \<longrightarrow> get_transactions_by_address X s addr start limit = Inr ([], []))"
proof (intro conjI impI allI)
  assume a: "ENABLE_TRANSACTION_HISTORY (env s) \<and> (scan_range X s addr start = Inr [] \<or> limit \<le> 0)"
  obtain kvs where kvs: "scan_range X s addr start = Inr kvs"
    unfolding scan_range_ok by simp
  have en: "ENABLE_TRANSACTION_HISTORY (env s)" using a by simp
  have "kvs = [] \<or> limit \<le> 0" using a kvs by auto
  then have "scan_rows X s kvs limit [] (''addr_'' @ address_serialize X addr)
               = Inr ([], ''addr_'' @ address_serialize X addr)"
    by (rule scan_rows_no_rows)
  then show "get_transactions_by_address X s addr start limit
            = Inr ([], ''addr_'' @ address_serialize X addr)"
    unfolding get_transactions_enabled [OF en kvs] .
next
  fix rows cur
  assume en: "ENABLE_TRANSACTION_HISTORY (env s)"
    and r: "get_transactions_by_address X s addr start limit = Inr (rows, cur)"
  obtain kvs where kvs: "scan_range X s addr start = Inr kvs"
    unfolding scan_range_ok by simp
  let ?n = "min (nat limit) (length kvs)"
  have sr: "scan_rows X s kvs limit [] (''addr_'' @ address_serialize X addr) = Inr (rows, cur)"
    using r unfolding get_transactions_enabled [OF en kvs] .
  note res = scan_rows_result [OF sr]
  show "cur \<noteq> []"
  proof (cases "?n = 0")
    case True
    then have "cur = ''addr_'' @ address_serialize X addr" using res by simp
    then show ?thesis by simp
  next
    case False
    then have i: "?n - 1 < length kvs" by arith
    have "to_bytes (from_bytes (fst (kvs ! (?n - 1))) - 1) (length (fst (kvs ! (?n - 1)))) = Inr cur"
      using res False by simp
    then show ?thesis
      by (rule cursor_below(4) [OF scan_range_keys(1) [OF kvs i]])
  qed
next
  assume "\<not> ENABLE_TRANSACTION_HISTORY (env s)"
  then show "get_transactions_by_address X s addr start limit = Inr ([], [])"
    by (simp add: get_transactions_by_address_def)
qed

theorem no_rows_cursor_is_prefix_witness:
  "get_transactions_by_address demo_collab (init [] demo_env) demo_address [] 10
     = Inr ([], ''addr_'' @ address_serialize demo_collab demo_address) \<and>
   get_transactions_by_address demo_collab
       (init demo_store (demo_env\<lparr>ENABLE_TRANSACTION_HISTORY := False\<rparr>)) demo_address [] 10
     = Inr ([], []) \<and>
   (\<exists>rows cur.
      get_transactions_by_address demo_collab (init demo_store demo_env) demo_address [] 10
        = Inr (rows, cur) \<and> cur \<noteq> [])"
proof -
  have e: "scan_range demo_collab (init [] demo_env) demo_address [] = Inr []"
    by (simp add: scan_range_ok reversed_range_iter_def range_keys_def init_def)
  have a: "get_transactions_by_address demo_collab (init [] demo_env) demo_address [] 10
     = Inr ([], ''addr_'' @ address_serialize demo_collab demo_address)"
    using no_rows_cursor_is_prefix [of "init [] demo_env" demo_collab demo_address "[]" 10]
          demo_enabled [of "[]"] e by blast
  have d: "\<not> ENABLE_TRANSACTION_HISTORY
              (env (init demo_store (demo_env\<lparr>ENABLE_TRANSACTION_HISTORY := False\<rparr>)))"
    by (simp add: init_def)
  have b: "get_transactions_by_address demo_collab
       (init demo_store (demo_env\<lparr>ENABLE_TRANSACTION_HISTORY := False\<rparr>)) demo_address [] 10
     = Inr ([], [])"
    using no_rows_cursor_is_prefix
            [of "init demo_store (demo_env\<lparr>ENABLE_TRANSACTION_HISTORY := False\<rparr>)"
                demo_collab demo_address "[]" 10] d by blast
  obtain rows cur where
    r: "get_transactions_by_address demo_collab (init demo_store demo_env) demo_address [] 10
          = Inr (rows, cur)"
    using demo_scan_returns_10
    by (cases "get_transactions_by_address demo_collab (init demo_store demo_env)
                 demo_address [] 10") auto
  have c: "cur \<noteq> []"
    using no_rows_cursor_is_prefix [of "init demo_store demo_env" demo_collab demo_address "[]" 10]
          demo_enabled [of demo_store] r by blast
  show ?thesis using a b r c by blast
qed


section \<open>C2: pagination of the address history\<close>

text \<open>
  Claim C2. With the history flag enabled, a call of
  \<open>get_transactions_by_address\<close> that returns gives the rows of the first
  \<open>min limit (number of keys in the range)\<close> keys of the scan, so at most
  \<open>limit\<close> rows (none for a limit below 1). When a row is returned the cursor has
  the length of the last consumed key and, read as a big-endian integer, is
  that key minus 1. A follow-up call with this cursor scans only keys strictly
  below the last consumed key, all of them keys of the first scan; when the
  keys of the scan have the one length of the key layout, the follow-up scan is
  exactly the rest of the first scan after the last consumed key.
\<close>

theorem get_transactions_by_address_pagination:
  assumes en: "ENABLE_TRANSACTION_HISTORY (env s)"
    and r: "get_transactions_by_address X s addr start limit = Inr (rows, cur)"
  shows "\<exists>kvs. scan_range X s addr start = Inr kvs \<and>
      int (length rows) \<le> max 0 limit \<and>
      length rows = min (nat limit) (length kvs) \<and>
      map Inr rows = map (\<lambda>kv. transaction_detail_of_key X s (fst kv)) (take (length rows) kvs) \<and>
      (rows \<noteq> [] \<longrightarrow>
         (\<exists>k kvs2. k = fst (kvs ! (length rows - 1)) \<and>
            length cur = length k \<and> from_bytes cur = from_bytes k - 1 \<and>
            scan_range X s addr cur = Inr kvs2 \<and>
            (\<forall>limit2. get_transactions_by_address X s addr cur limit2
                       = scan_rows X s kvs2 limit2 [] (''addr_'' @ address_serialize X addr)) \<and>
            (\<forall>kv \<in> set kvs2. fst kv < k) \<and>
            set kvs2 \<subseteq> set kvs \<and>
            ((\<forall>kv \<in> set kvs. length (fst kv) = length k) \<longrightarrow> kvs2 = drop (length rows) kvs)))"
proof -
  let ?e = "''addr_'' @ address_serialize X addr"
  let ?os = "original_start_of ?e"
  let ?a = "scan_start start ?os"
  let ?L = "range_keys (db s) ?a ?e"
  define kvs where "kvs = reversed_range_iter (db s) ?a ?e"
  have kvs: "scan_range X s addr start = Inr kvs"
    unfolding scan_range_ok kvs_def ..
  have lk: "length kvs = length ?L" unfolding kvs_def by (rule length_reversed_range_iter)
  have sr: "scan_rows X s kvs limit [] ?e = Inr (rows, cur)"
    using r unfolding get_transactions_enabled [OF en kvs] .
  note res = scan_rows_result [OF sr]
  let ?n = "min (nat limit) (length kvs)"
  have len: "length rows = ?n" using res by simp
  have bound: "int (length rows) \<le> max 0 limit" unfolding len by auto
  have mp: "map Inr rows = map (\<lambda>kv. transaction_detail_of_key X s (fst kv)) (take (length rows) kvs)"
    using res unfolding len by simp
  have follow: "\<exists>k kvs2. k = fst (kvs ! (length rows - 1)) \<and>
            length cur = length k \<and> from_bytes cur = from_bytes k - 1 \<and>
            scan_range X s addr cur = Inr kvs2 \<and>
            (\<forall>limit2. get_transactions_by_address X s addr cur limit2
                       = scan_rows X s kvs2 limit2 [] ?e) \<and>
            (\<forall>kv \<in> set kvs2. fst kv < k) \<and>
            set kvs2 \<subseteq> set kvs \<and>
            ((\<forall>kv \<in> set kvs. length (fst kv) = length k) \<longrightarrow> kvs2 = drop (length rows) kvs)"
    if ne: "rows \<noteq> []"
  proof -
    have "length rows \<noteq> 0" using ne by simp
    then have n0: "0 < ?n" unfolding len by (simp only: neq0_conv)
    then have i: "?n - 1 < length kvs" by arith
    define k where "k = fst (kvs ! (?n - 1))"
    have i': "?n - 1 < length ?L" using i unfolding lk .
    have nthL: "fst (kvs ! j) = ?L ! j" if "j < length ?L" for j
      unfolding kvs_def by (rule fst_nth_reversed_range_iter [OF that])
    have kL: "k = ?L ! (?n - 1)"
      unfolding k_def by (rule nthL [OF i'])
    have tb: "to_bytes (from_bytes k - 1) (length k) = Inr cur"
      using res n0 unfolding k_def by simp
    have ek: "?e < k" and ka: "k \<le> ?a"
      unfolding k_def using scan_range_keys [OF kvs i] by simp_all
    note cb = cursor_below [OF ek tb]
    have cur_le: "cur \<le> ?a" using cb(3) ka by simp
    have cur_os: "\<not> ?os < cur"
      using cur_le scan_start_le [of start ?os] by (meson leD le_less_trans not_le order_trans)
    have st: "scan_start cur ?os = cur"
      using cb(4) cur_os by (simp add: scan_start_def)
    define kvs2 where "kvs2 = reversed_range_iter (db s) cur ?e"
    have kvs2: "scan_range X s addr cur = Inr kvs2"
      unfolding scan_range_ok st kvs2_def ..
    have rk2: "range_keys (db s) cur ?e = filter (\<lambda>x. x \<le> cur) ?L"
      by (rule range_keys_filter [OF cur_le])
    have below: "\<forall>kv \<in> set kvs2. fst kv < k"
    proof
      fix kv assume "kv \<in> set kvs2"
      then have "fst kv \<in> set (range_keys (db s) cur ?e)"
        unfolding kvs2_def reversed_range_iter_def by auto
      then have "fst kv \<le> cur" using range_keys_bounds by blast
      then show "fst kv < k" using cb(3) by simp
    qed
    have sub: "set kvs2 \<subseteq> set kvs"
      unfolding kvs2_def kvs_def reversed_range_iter_def rk2 by auto
    have ex: "kvs2 = drop (length rows) kvs"
      if sl: "\<forall>kv \<in> set kvs. length (fst kv) = length k"
    proof -
      have slL: "length x = length k" if "x \<in> set ?L" for x
      proof -
        from that have "x \<in> fst ` set kvs"
          unfolding kvs_def reversed_range_iter_def by (force simp: image_iff)
        then show ?thesis using sl by auto
      qed
      have "filter (\<lambda>x. x \<le> cur) ?L = drop ?n ?L"
      proof (rule filter_desc_eq_drop [OF sorted_wrt_range_keys n0])
        show "?n \<le> length ?L" using lk by simp
      next
        fix x assume "x \<in> set ?L"
        then show "(x \<le> cur) = (x < ?L ! (?n - 1))"
          using keys_above_cursor [OF cb(1) cb(2) slL] unfolding kL by simp
      qed
      then show ?thesis
        unfolding kvs2_def kvs_def reversed_range_iter_def rk2 len
        by (simp add: drop_map lk [unfolded kvs_def reversed_range_iter_def, simplified])
    qed
    have fu: "\<forall>limit2. get_transactions_by_address X s addr cur limit2
                       = scan_rows X s kvs2 limit2 [] ?e"
      using get_transactions_enabled [OF en kvs2] by simp
    show ?thesis
      using cb(1) cb(2) kvs2 fu below sub ex unfolding k_def len by blast
  qed
  show ?thesis
    using kvs bound len mp follow by blast
qed

theorem get_transactions_by_address_pagination_witness:
  "ENABLE_TRANSACTION_HISTORY (env (init demo_store demo_env)) \<and>
   (\<exists>rows cur.
      get_transactions_by_address demo_collab (init demo_store demo_env) demo_address [] 1
        = Inr (rows, cur) \<and>
      length rows = 1 \<and>
      length cur = length (demo_key 3 False 1) \<and>
      from_bytes cur = from_bytes (demo_key 3 False 1) - 1 \<and>
      scan_range demo_collab (init demo_store demo_env) demo_address cur
        = Inr [(demo_key 3 False 0, [])])"
proof -
  let ?s = "init demo_store demo_env"
  obtain rows cur where
    r: "get_transactions_by_address demo_collab ?s demo_address [] 1 = Inr (rows, cur)"
    using demo_scan_returns
    by (cases "get_transactions_by_address demo_collab ?s demo_address [] 1") auto
  from get_transactions_by_address_pagination [OF demo_enabled r]
  obtain kvs where
    k1: "scan_range demo_collab ?s demo_address [] = Inr kvs" and
    k2: "length rows = min (nat 1) (length kvs)" and
    k3: "rows \<noteq> [] \<longrightarrow>
         (\<exists>k kvs2. k = fst (kvs ! (length rows - 1)) \<and>
            length cur = length k \<and> from_bytes cur = from_bytes k - 1 \<and>
            scan_range demo_collab ?s demo_address cur = Inr kvs2 \<and>
            (\<forall>limit2. get_transactions_by_address demo_collab ?s demo_address cur limit2
                       = scan_rows demo_collab ?s kvs2 limit2 []
                           (''addr_'' @ address_serialize demo_collab demo_address)) \<and>
            (\<forall>kv \<in> set kvs2. fst kv < k) \<and>
            set kvs2 \<subseteq> set kvs \<and>
            ((\<forall>kv \<in> set kvs. length (fst kv) = length k) \<longrightarrow> kvs2 = drop (length rows) kvs))"
    by blast
  have kvs: "kvs = [(demo_key 3 False 1, []), (demo_key 3 False 0, [])]"
    using k1 unfolding demo_scan_range by simp
  have l: "length rows = 1" using k2 unfolding kvs by simp
  then have ne: "rows \<noteq> []" by auto
  from k3 ne obtain kvs2 where
    c1: "length cur = length (fst (kvs ! (length rows - 1)))" and
    c2: "from_bytes cur = from_bytes (fst (kvs ! (length rows - 1))) - 1" and
    c3: "scan_range demo_collab ?s demo_address cur = Inr kvs2" and
    c4: "(\<forall>kv \<in> set kvs. length (fst kv) = length (fst (kvs ! (length rows - 1))))
           \<longrightarrow> kvs2 = drop (length rows) kvs"
    by blast
  have k: "fst (kvs ! (length rows - 1)) = demo_key 3 False 1"
    unfolding l kvs by simp
  have "\<forall>kv \<in> set kvs. length (fst kv) = length (demo_key 3 False 1)"
    unfolding kvs by (simp add: length_demo_key)
  then have "kvs2 = drop (length rows) kvs" using c4 unfolding k by blast
  then have kvs2: "kvs2 = [(demo_key 3 False 0, [])]" unfolding l kvs by simp
  show ?thesis
    using demo_enabled r l c1 c2 c3 unfolding k kvs2 by blast
qed


section \<open>C7: looking a transaction up by hash\<close>

lemma take_drop_be:
  "take 4 (be_bytes 4 h @ be_bytes 4 i) = be_bytes 4 h"
  "drop 4 (be_bytes 4 h @ be_bytes 4 i) = be_bytes 4 i"
  using length_be_bytes [of 4 h] by (simp_all del: be_bytes.simps)

text \<open>
  Claim C7, amended. \<open>get_transaction_by_hash\<close> returns \<open>(None, None)\<close> when
  there is no \<open>txindex_\<close> entry for the hash and also when the stored record is
  empty; it fails with the assertion when the stored record is not empty and
  its length is not 8; for a record of a 4-byte big-endian height followed by a
  4-byte big-endian index it returns what \<open>get_minor_block_by_height\<close> returns
  for that height, together with the index.
\<close>

theorem get_transaction_by_hash_cases:
  "(db_get (db s) (''txindex_'' @ txh) = None \<or> db_get (db s) (''txindex_'' @ txh) = Some []
      \<longrightarrow> get_transaction_by_hash X s txh = Inr (None, None)) \<and>
   (\<forall>r. db_get (db s) (''txindex_'' @ txh) = Some r \<and> r \<noteq> [] \<and> length r \<noteq> 8
      \<longrightarrow> get_transaction_by_hash X s txh = Inl AssertionError) \<and>
   (\<forall>h i. db_get (db s) (''txindex_'' @ txh) = Some (be_bytes 4 h @ be_bytes 4 i) \<and>
          0 \<le> h \<and> h < 2 ^ 32 \<and> 0 \<le> i \<and> i < 2 ^ 32
      \<longrightarrow> get_transaction_by_hash X s txh =
            (case get_minor_block_by_height X s h of
               Inl e \<Rightarrow> Inl e
             | Inr b \<Rightarrow> Inr (b, Some i)))"
proof (intro conjI allI impI)
  assume "db_get (db s) (''txindex_'' @ txh) = None \<or> db_get (db s) (''txindex_'' @ txh) = Some []"
  then show "get_transaction_by_hash X s txh = Inr (None, None)"
    by (auto simp: get_transaction_by_hash_def)
next
  fix r
  assume "db_get (db s) (''txindex_'' @ txh) = Some r \<and> r \<noteq> [] \<and> length r \<noteq> 8"
  then show "get_transaction_by_hash X s txh = Inl AssertionError"
    by (simp add: get_transaction_by_hash_def)
next
  fix h i
  assume a: "db_get (db s) (''txindex_'' @ txh) = Some (be_bytes 4 h @ be_bytes 4 i) \<and>
          0 \<le> h \<and> h < 2 ^ 32 \<and> 0 \<le> i \<and> i < 2 ^ 32"
  define r where "r = be_bytes 4 h @ be_bytes 4 i"
  have l: "length r = 8" "r \<noteq> []"
    using length_be_bytes [of 4 h] length_be_bytes [of 4 i]
    unfolding r_def by (auto simp del: be_bytes.simps)
  have d: "from_bytes (take 4 r) = h" "from_bytes (drop 4 r) = i"
    using a unfolding r_def take_drop_be by (simp_all add: from_bytes_be_bytes del: be_bytes.simps)
  have g: "db_get (db s) (''txindex_'' @ txh) = Some r"
    using a unfolding r_def by simp
  show "get_transaction_by_hash X s txh =
            (case get_minor_block_by_height X s h of
               Inl e \<Rightarrow> Inl e
             | Inr b \<Rightarrow> Inr (b, Some i))"
    unfolding get_transaction_by_hash_def Let_def g by (simp add: l d cong: sum.case_cong)
qed

theorem get_transaction_by_hash_cases_witness:
  "db_get (db (put (init demo_store demo_env) (''txindex_'' @ ''x'') [])) (''txindex_'' @ ''x'') = Some [] \<and>
   get_transaction_by_hash demo_collab (put (init demo_store demo_env) (''txindex_'' @ ''x'') []) ''x''
     = Inr (None, None) \<and>
   db_get (db (put (init demo_store demo_env) (''txindex_'' @ ''y'') ''abc'')) (''txindex_'' @ ''y'') = Some ''abc'' \<and>
   get_transaction_by_hash demo_collab (put (init demo_store demo_env) (''txindex_'' @ ''y'') ''abc'') ''y''
     = Inl AssertionError \<and>
   db_get (db (init demo_store demo_env)) (''txindex_'' @ tx_get_hash demo_collab demo_tx)
     = Some (be_bytes 4 3 @ be_bytes 4 1) \<and>
   get_transaction_by_hash demo_collab (init demo_store demo_env) (tx_get_hash demo_collab demo_tx)
     = Inr (Some (demo_block 3 0 2), Some 1)"
proof -
  have g: "get_minor_block_by_height demo_collab (init demo_store demo_env) 3
             = Inr (Some (demo_block 3 0 2))"
    by code_simp
  have d1: "db_get (db (put (init demo_store demo_env) (''txindex_'' @ ''x'') [])) (''txindex_'' @ ''x'') = Some []"
    by (simp add: put_def db_get_put)
  have d2: "db_get (db (put (init demo_store demo_env) (''txindex_'' @ ''y'') ''abc'')) (''txindex_'' @ ''y'') = Some ''abc''"
    by (simp add: put_def db_get_put)
  have d3: "db_get (db (init demo_store demo_env)) (''txindex_'' @ tx_get_hash demo_collab demo_tx)
     = Some (be_bytes 4 3 @ be_bytes 4 1)"
    by code_simp
  note t1 = get_transaction_by_hash_cases [of "put (init demo_store demo_env) (''txindex_'' @ ''x'') []" "''x''" demo_collab]
  note t2 = get_transaction_by_hash_cases [of "put (init demo_store demo_env) (''txindex_'' @ ''y'') ''abc''" "''y''" demo_collab]
  note t3 = get_transaction_by_hash_cases [of "init demo_store demo_env" "tx_get_hash demo_collab demo_tx" demo_collab]
  have r1: "get_transaction_by_hash demo_collab (put (init demo_store demo_env) (''txindex_'' @ ''x'') []) ''x''
     = Inr (None, None)"
    using t1 d1 by blast
  have r2: "get_transaction_by_hash demo_collab (put (init demo_store demo_env) (''txindex_'' @ ''y'') ''abc'') ''y''
     = Inl AssertionError"
  proof -
    have "''abc'' \<noteq> [] \<and> length ''abc'' \<noteq> 8" by simp
    then show ?thesis using t2 d2 by blast
  qed
  have "get_transaction_by_hash demo_collab (init demo_store demo_env) (tx_get_hash demo_collab demo_tx)
     = (case get_minor_block_by_height demo_collab (init demo_store demo_env) 3 of
               Inl e \<Rightarrow> Inl e
             | Inr b \<Rightarrow> Inr (b, Some 1))"
    using t3 d3 by simp
  then have r3: "get_transaction_by_hash demo_collab (init demo_store demo_env) (tx_get_hash demo_collab demo_tx)
     = Inr (Some (demo_block 3 0 2), Some 1)"
    unfolding g by simp
  show ?thesis using d1 d2 d3 r1 r2 r3 by blast
qed

text \<open>The claim as first stated fails on an empty stored record: its length is
  not 8, and the lookup returns \<open>(None, None)\<close> instead of failing.\<close>

theorem get_transaction_by_hash_empty_record_counterexample:
  "db_get (db (put (init [] demo_env) (''txindex_'' @ replicate 32 (CHR 0x01)) []))
          (''txindex_'' @ replicate 32 (CHR 0x01)) = Some [] \<and>
   length ([] :: bytes) \<noteq> 8 \<and>
   get_transaction_by_hash demo_collab
     (put (init [] demo_env) (''txindex_'' @ replicate 32 (CHR 0x01)) [])
     (replicate 32 (CHR 0x01)) \<noteq> Inl AssertionError \<and>
   get_transaction_by_hash demo_collab
     (put (init [] demo_env) (''txindex_'' @ replicate 32 (CHR 0x01)) [])
     (replicate 32 (CHR 0x01)) = Inr (None, None)"
  by (simp add: put_def db_get_put get_transaction_by_hash_def)

section \<open>Lemmas on the per-height hash sets\<close>

lemma hh_put_confirmed [simp]:
  "hh (put_confirmed_cross_shard_transaction_deposit_list X s h l) = hh s"
  by (simp add: put_confirmed_cross_shard_transaction_deposit_list_def)

lemma hh_update_history:
  "update_transaction_history_index X s t n i f = Inr s' \<Longrightarrow> hh s' = hh s"
  by (auto simp: update_transaction_history_index_def Let_def split: sum.splits if_splits)

lemma hh_put_history: "put_transaction_history_index X s t n i = Inr s' \<Longrightarrow> hh s' = hh s"
  by (auto simp: put_transaction_history_index_def dest!: hh_update_history split: if_splits)

lemma hh_remove_history: "remove_transaction_history_index X s t n i = Inr s' \<Longrightarrow> hh s' = hh s"
  by (auto simp: remove_transaction_history_index_def dest!: hh_update_history split: if_splits)

lemma hh_history_list:
  "update_history_from_list X s n f i l = Inr s' \<Longrightarrow> hh s' = hh s"
proof (induction l arbitrary: s i)
  case Nil
  then show ?case by simp
next
  case (Cons t l)
  then show ?case
    by (fastforce split: if_splits sum.splits)
qed

lemma hh_history_block:
  "update_transaction_history_index_from_block X s b f = Inr s' \<Longrightarrow> hh s' = hh s"
  by (auto simp: update_transaction_history_index_from_block_def dest!: hh_history_list
           split: sum.splits)

lemma hh_put_history_block:
  "put_transaction_history_index_from_block X s b = Inr s' \<Longrightarrow> hh s' = hh s"
  by (auto simp: put_transaction_history_index_from_block_def dest!: hh_history_block
           split: if_splits)

lemma hh_remove_history_block:
  "remove_transaction_history_index_from_block X s b = Inr s' \<Longrightarrow> hh s' = hh s"
  by (auto simp: remove_transaction_history_index_from_block_def dest!: hh_history_block
           split: if_splits)

lemma hh_put_tx_index: "put_transaction_index X s t n i = Inr s' \<Longrightarrow> hh s' = hh s"
  by (auto simp: put_transaction_index_def dest!: hh_put_history split: sum.splits)

lemma hh_remove_tx_index: "remove_transaction_index X s t n i = Inr s' \<Longrightarrow> hh s' = hh s"
  by (auto simp: remove_transaction_index_def dest!: hh_remove_history)

lemma hh_put_tx_list: "put_transaction_index_list X s n i l = Inr s' \<Longrightarrow> hh s' = hh s"
proof (induction l arbitrary: s i)
  case Nil
  then show ?case by simp
next
  case (Cons t l)
  then show ?case
    by (fastforce dest!: hh_put_tx_index split: sum.splits)
qed

lemma hh_remove_tx_list: "remove_transaction_index_list X s n i l = Inr s' \<Longrightarrow> hh s' = hh s"
proof (induction l arbitrary: s i)
  case Nil
  then show ?case by simp
next
  case (Cons t l)
  then show ?case
    by (fastforce dest!: hh_remove_tx_index split: sum.splits)
qed

lemma hh_put_tx_block: "put_transaction_index_from_block X s b = Inr s' \<Longrightarrow> hh s' = hh s"
  by (auto simp: put_transaction_index_from_block_def
           dest!: hh_put_tx_list hh_put_history_block split: sum.splits)

lemma hh_remove_tx_block: "remove_transaction_index_from_block X s b = Inr s' \<Longrightarrow> hh s' = hh s"
  by (auto simp: remove_transaction_index_from_block_def
           dest!: hh_remove_tx_list hh_remove_history_block split: sum.splits)

lemma hh_put_total: "put_total_tx_count X s b = Inr s' \<Longrightarrow> hh s' = hh s"
  by (auto simp: put_total_tx_count_def Let_def split: sum.splits)

lemma hh_get_minor_header:
  "get_minor_block_header_by_hash X s h = Inr (r, s') \<Longrightarrow> hh s' = hh s"
  by (auto simp: get_minor_block_header_by_hash_def split: sum.splits option.splits)

lemma hh_get_minor_meta:
  "get_minor_block_meta_by_hash X s h = Inr (r, s') \<Longrightarrow> hh s' = hh s"
  by (auto simp: get_minor_block_meta_by_hash_def split: sum.splits option.splits)

lemma hh_get_evm_root:
  "get_minor_block_evm_root_hash_by_hash X s h = Inr (r, s') \<Longrightarrow> hh s' = hh s"
  by (auto simp: get_minor_block_evm_root_hash_by_hash_def dest!: hh_get_minor_meta
           split: sum.splits option.splits)

lemma hh_get_root_block:
  "get_root_block_by_hash X s h = Inr (r, s') \<Longrightarrow> hh s' = hh s"
  by (auto simp: get_root_block_by_hash_def split: option.splits if_splits)

lemma hh_get_root_header:
  "get_root_block_header_by_hash X s h = Inr (r, s') \<Longrightarrow> hh s' = hh s"
  by (auto simp: get_root_block_header_by_hash_def dest!: hh_get_root_block
           split: option.splits sum.splits)

lemma hh_last_confirmed:
  "get_last_confirmed_minor_block_header_at_root_block X s h = Inr (r, s') \<Longrightarrow> hh s' = hh s"
  by (auto simp: get_last_confirmed_minor_block_header_at_root_block_def
           dest!: hh_get_minor_header split: option.splits if_splits)

lemma recover_root_loop_frame:
  assumes "recover_root_loop X s h = Some (Inr s')"
  shows "\<exists>p. s' = s\<lparr>r_header_pool := p\<rparr>"
proof -
  have "\<forall>s'. y = Inr s' \<longrightarrow> (\<exists>p. s' = s\<lparr>r_header_pool := p\<rparr>)"
    if "recover_root_loop X s h = Some y" for y
  proof (rule recover_root_loop.raw_induct
      [where P = "\<lambda>X s h y. \<forall>s'. y = Inr s' \<longrightarrow> (\<exists>p. s' = s\<lparr>r_header_pool := p\<rparr>)", OF _ that])
    fix f X s h y
    assume ih: "\<And>X s h y. f X s h = Some y \<Longrightarrow>
                  \<forall>s'. y = Inr s' \<longrightarrow> (\<exists>p. s' = s\<lparr>r_header_pool := p\<rparr>)"
      and b: "(if int (card (dom (r_header_pool s))) < max_root_blocks_in_memory (env s) then
        (case db_get (db s) (''rblock_'' @ h) of
           None \<Rightarrow> Some (Inl DeserializeError)
         | Some data \<Rightarrow>
            (case rblock_deserialize X data of
               None \<Rightarrow> Some (Inl DeserializeError)
             | Some block \<Rightarrow>
                (let s' = s\<lparr>r_header_pool := (r_header_pool s)(h \<mapsto> root_header block)\<rparr>
                 in if root_height (root_header block) \<le> genesis_root_height (env s)
                    then Some (Inr s')
                    else f X s' (hash_prev_block (root_header block)))))
      else Some (Inr s)) = Some y"
    show "\<forall>s'. y = Inr s' \<longrightarrow> (\<exists>p. s' = s\<lparr>r_header_pool := p\<rparr>)"
    proof (intro allI impI)
      fix s' assume y: "y = Inr s'"
      show "\<exists>p. s' = s\<lparr>r_header_pool := p\<rparr>"
      proof (cases "int (card (dom (r_header_pool s))) < max_root_blocks_in_memory (env s)")
        case False
        with b y have "s' = s" by simp
        then show ?thesis by (intro exI [of _ "r_header_pool s"]) simp
      next
        case True
        with b y obtain data block where
          blk: "rblock_deserialize X data = Some block" and
          c: "(let s1 = s\<lparr>r_header_pool := (r_header_pool s)(h \<mapsto> root_header block)\<rparr>
                 in if root_height (root_header block) \<le> genesis_root_height (env s)
                    then Some (Inr s1)
                    else f X s1 (hash_prev_block (root_header block))) = Some (Inr s')"
          by (auto split: option.splits)
        let ?s1 = "s\<lparr>r_header_pool := (r_header_pool s)(h \<mapsto> root_header block)\<rparr>"
        show ?thesis
        proof (cases "root_height (root_header block) \<le> genesis_root_height (env s)")
          case True
          with c have "s' = ?s1" by (simp add: Let_def)
          then show ?thesis by blast
        next
          case False
          with c have "f X ?s1 (hash_prev_block (root_header block)) = Some (Inr s')"
            by (simp add: Let_def)
          from ih [OF this] obtain p where "s' = ?s1\<lparr>r_header_pool := p\<rparr>" by blast
          then have "s' = s\<lparr>r_header_pool := p\<rparr>" by simp
          then show ?thesis by blast
        qed
      qed
    qed
  qed
  then show ?thesis using assms by blast
qed

lemma recover_minor_loop_frame:
  assumes "recover_minor_loop X s h = Some (Inr s')"
  shows "\<exists>p q. s' = s\<lparr>m_header_pool := p, m_meta_pool := q\<rparr>"
proof -
  have "\<forall>s'. y = Inr s' \<longrightarrow> (\<exists>p q. s' = s\<lparr>m_header_pool := p, m_meta_pool := q\<rparr>)"
    if "recover_minor_loop X s h = Some y" for y
  proof (rule recover_minor_loop.raw_induct
      [where P = "\<lambda>X s h y. \<forall>s'. y = Inr s' \<longrightarrow>
                     (\<exists>p q. s' = s\<lparr>m_header_pool := p, m_meta_pool := q\<rparr>)", OF _ that])
    fix f X s h y
    assume ih: "\<And>X s h y. f X s h = Some y \<Longrightarrow>
                  \<forall>s'. y = Inr s' \<longrightarrow> (\<exists>p q. s' = s\<lparr>m_header_pool := p, m_meta_pool := q\<rparr>)"
      and b: "(if int (card (dom (m_header_pool s))) < max_minor_blocks_in_memory (env s) then
        (case db_get (db s) (''mblock_'' @ h) of
           None \<Rightarrow> Some (Inl DeserializeError)
         | Some data \<Rightarrow>
            (case mblock_deserialize X data of
               None \<Rightarrow> Some (Inl DeserializeError)
             | Some block \<Rightarrow>
                (let s1 = s\<lparr>m_header_pool := (m_header_pool s)(h \<mapsto> header block)\<rparr>;
                     s2 = s1\<lparr>m_meta_pool := (m_meta_pool s1)(h \<mapsto> meta block)\<rparr>
                 in if height (header block) \<le> 0
                    then Some (Inr s2)
                    else f X s2 (hash_prev_minor_block (header block)))))
      else Some (Inr s)) = Some y"
    show "\<forall>s'. y = Inr s' \<longrightarrow> (\<exists>p q. s' = s\<lparr>m_header_pool := p, m_meta_pool := q\<rparr>)"
    proof (intro allI impI)
      fix s' assume y: "y = Inr s'"
      show "\<exists>p q. s' = s\<lparr>m_header_pool := p, m_meta_pool := q\<rparr>"
      proof (cases "int (card (dom (m_header_pool s))) < max_minor_blocks_in_memory (env s)")
        case False
        with b y have "s' = s" by simp
        then show ?thesis
          by (intro exI [of _ "m_header_pool s"] exI [of _ "m_meta_pool s"]) simp
      next
        case True
        with b y obtain data block where
          blk: "mblock_deserialize X data = Some block" and
          c: "(let s1 = s\<lparr>m_header_pool := (m_header_pool s)(h \<mapsto> header block)\<rparr>;
                   s2 = s1\<lparr>m_meta_pool := (m_meta_pool s1)(h \<mapsto> meta block)\<rparr>
                 in if height (header block) \<le> 0
                    then Some (Inr s2)
                    else f X s2 (hash_prev_minor_block (header block))) = Some (Inr s')"
          by (auto split: option.splits)
        let ?s2 = "s\<lparr>m_header_pool := (m_header_pool s)(h \<mapsto> header block),
                      m_meta_pool := (m_meta_pool s)(h \<mapsto> meta block)\<rparr>"
        show ?thesis
        proof (cases "height (header block) \<le> 0")
          case True
          with c have "s' = ?s2" by (simp add: Let_def)
          then show ?thesis by blast
        next
          case False
          with c have "f X ?s2 (hash_prev_minor_block (header block)) = Some (Inr s')"
            by (simp add: Let_def)
          from ih [OF this] obtain p q where "s' = ?s2\<lparr>m_header_pool := p, m_meta_pool := q\<rparr>"
            by blast
          then have "s' = s\<lparr>m_header_pool := p, m_meta_pool := q\<rparr>" by simp
          then show ?thesis by blast
        qed
      qed
    qed
  qed
  then show ?thesis using assms by blast
qed

lemma hh_recover_state: "recover_state X s rh mh = Some (Inr s') \<Longrightarrow> hh s' = hh s"
proof -
  assume a: "recover_state X s rh mh = Some (Inr s')"
  then obtain s1 where
    r: "recover_root_loop X s (rheader_get_hash X rh) = Some (Inr s1)" and
    m: "recover_minor_loop X s1 (mheader_get_hash X mh) = Some (Inr s')"
    by (auto simp: recover_state_def split: option.splits sum.splits)
  from recover_root_loop_frame [OF r] recover_minor_loop_frame [OF m]
  show ?thesis by auto
qed

lemma hh_root_header_walk:
  assumes "root_header_walk X s n rh = Some (Inr (r, s'))"
  shows "hh s' = hh s"
proof -
  have "\<forall>r s'. y = Inr (r, s') \<longrightarrow> hh s' = hh s"
    if "root_header_walk X s n rh = Some y" for y
  proof (rule root_header_walk.raw_induct
      [where P = "\<lambda>X s n rh y. \<forall>r s'. y = Inr (r, s') \<longrightarrow> hh s' = hh s", OF _ that])
    fix f X s n rh y
    assume ih: "\<And>X s n rh y. f X s n rh = Some y \<Longrightarrow> \<forall>r s'. y = Inr (r, s') \<longrightarrow> hh s' = hh s"
      and b: "(if n \<noteq> root_height rh then
        (case get_root_block_header_by_hash X s (hash_prev_block rh) of
           Inl e \<Rightarrow> Some (Inl e)
         | Inr (None, s') \<Rightarrow> Some (Inl AttributeError)
         | Inr (Some rh', s') \<Rightarrow> f X s' n rh')
      else Some (Inr (Some rh, s))) = Some y"
    show "\<forall>r s'. y = Inr (r, s') \<longrightarrow> hh s' = hh s"
    proof (intro allI impI)
      fix r s' assume y: "y = Inr (r, s')"
      show "hh s' = hh s"
      proof (cases "n \<noteq> root_height rh")
        case False
        with b y show ?thesis by simp
      next
        case True
        with b y obtain rh' s1 where
          g: "get_root_block_header_by_hash X s (hash_prev_block rh) = Inr (Some rh', s1)" and
          c: "f X s1 n rh' = Some (Inr (r, s'))"
          by (auto split: sum.splits option.splits)
        from ih [OF c] have "hh s' = hh s1" by blast
        with hh_get_root_header [OF g] show ?thesis by simp
      qed
    qed
  qed
  then show ?thesis using assms by blast
qed

lemma hh_root_header_by_height:
  "get_root_block_header_by_height X s h n = Some (Inr (r, s')) \<Longrightarrow> hh s' = hh s"
  by (auto simp: get_root_block_header_by_height_def
           dest!: hh_get_root_header hh_root_header_walk
           split: sum.splits option.splits if_splits)

lemma hh_put_minor_block:
  "put_minor_block X s b xs = Inr s' \<Longrightarrow>
     hh s' = setdefault_add (hh s) (height (header b)) (mheader_get_hash X (header b))"
  by (auto simp: put_minor_block_def Let_def dest!: hh_put_total split: sum.splits)

lemma hashes_at_setdefault_add:
  "hashes_at (s\<lparr>height_to_minor_block_hashes := setdefault_add (hh s0) n x\<rparr>) h
     = (if h = n then insert x (hashes_at s0 h) else hashes_at s0 h)"
  by (simp add: hashes_at_def setdefault_add_def)

lemma hashes_at_cong: "hh s' = hh s \<Longrightarrow> hashes_at s' h = hashes_at s h"
  by (simp add: hashes_at_def)

lemma hashes_at_put_minor_block:
  assumes "put_minor_block X s b xs = Inr s'"
  shows "hashes_at s' h =
     (if h = height (header b) then insert (mheader_get_hash X (header b)) (hashes_at s h)
      else hashes_at s h)"
  using hh_put_minor_block [OF assms]
  by (auto simp: hashes_at_def setdefault_add_def)

lemma hashes_at_get_block_count:
  "hashes_at (snd (get_block_count_by_height s n)) h = hashes_at s h"
  by (simp add: get_block_count_by_height_def hashes_at_def split: option.splits)

lemma after_Inr: "after r = Inr s' \<Longrightarrow> \<exists>v. r = Inr (v, s')"
  by (cases r) (auto simp: after_def)

lemma after_hh:
  assumes "after r = Inr s'" and "\<And>v. r = Inr (v, s') \<Longrightarrow> hh s' = hh s"
  shows "hh s' = hh s"
  using after_Inr [OF assms(1)] assms(2) by blast

lemma step_hh:
  assumes st: "step X s c = Some (Inr s')"
    and np: "\<And>b xs. c \<noteq> Put_minor_block b xs"
    and ng: "\<And>n. c \<noteq> Get_block_count_by_height n"
  shows "hh s' = hh s"
proof (cases c)
  case (Recover_state rh mh)
  with st show ?thesis by (simp add: hh_recover_state)
next
  case (Put_root_block b mh h)
  with st show ?thesis by (auto simp: put_root_block_def Let_def)
next
  case (Get_root_block_by_hash h)
  with st have "after (get_root_block_by_hash X s h) = Inr s'" by simp
  then show ?thesis by (rule after_hh) (rule hh_get_root_block)
next
  case (Get_root_block_header_by_hash h)
  with st have "after (get_root_block_header_by_hash X s h) = Inr s'" by simp
  then show ?thesis by (rule after_hh) (rule hh_get_root_header)
next
  case (Get_root_block_header_by_height k n)
  with st obtain r where
    a: "get_root_block_header_by_height X s k n = Some r" and b: "after r = Inr s'"
    by auto
  from b show ?thesis
  proof (rule after_hh)
    fix v assume "r = Inr (v, s')"
    with a show "hh s' = hh s" by (simp add: hh_root_header_by_height)
  qed
next
  case (Get_last_confirmed_minor_block_header_at_root_block h)
  with st have "after (get_last_confirmed_minor_block_header_at_root_block X s h) = Inr s'"
    by simp
  then show ?thesis by (rule after_hh) (rule hh_last_confirmed)
next
  case (Put_genesis_block h b)
  with st show ?thesis by (auto simp: put_genesis_block_def)
next
  case (Put_minor_block b xs)
  with np show ?thesis by blast
next
  case (Put_total_tx_count b)
  with st show ?thesis by (simp add: hh_put_total)
next
  case (Get_minor_block_header_by_hash h)
  with st have "after (get_minor_block_header_by_hash X s h) = Inr s'" by simp
  then show ?thesis by (rule after_hh) (rule hh_get_minor_header)
next
  case (Get_minor_block_evm_root_hash_by_hash h)
  with st have "after (get_minor_block_evm_root_hash_by_hash X s h) = Inr s'" by simp
  then show ?thesis by (rule after_hh) (rule hh_get_evm_root)
next
  case (Get_minor_block_meta_by_hash h)
  with st have "after (get_minor_block_meta_by_hash X s h) = Inr s'" by simp
  then show ?thesis by (rule after_hh) (rule hh_get_minor_meta)
next
  case (Put_minor_block_index b)
  with st show ?thesis by (auto simp: put_minor_block_index_def)
next
  case (Remove_minor_block_index b)
  with st show ?thesis by (auto simp: remove_minor_block_index_def)
next
  case (Get_block_count_by_height n)
  with ng show ?thesis by blast
next
  case (Put_transaction_index t n i)
  with st show ?thesis by (simp add: hh_put_tx_index)
next
  case (Remove_transaction_index t n i)
  with st show ?thesis by (simp add: hh_remove_tx_index)
next
  case (Put_transaction_index_from_block b)
  with st show ?thesis by (simp add: hh_put_tx_block)
next
  case (Remove_transaction_index_from_block b)
  with st show ?thesis by (simp add: hh_remove_tx_block)
next
  case (Put_confirmed_cross_shard_transaction_deposit_list h l)
  with st show ?thesis by auto
next
  case (Put_transaction_history_index t n i)
  with st show ?thesis by (simp add: hh_put_history)
next
  case (Remove_transaction_history_index t n i)
  with st show ?thesis by (simp add: hh_remove_history)
next
  case (Put_transaction_history_index_from_block b)
  with st show ?thesis by (simp add: hh_put_history_block)
next
  case (Remove_transaction_history_index_from_block b)
  with st show ?thesis by (simp add: hh_remove_history_block)
next
  case (Put_minor_block_xshard_tx_list h l)
  with st show ?thesis by (auto simp: put_minor_block_xshard_tx_list_def)
next
  case (Put k v)
  with st show ?thesis by (auto simp: put_def)
qed

lemma put_hashes_single_other:
  "(\<And>b xs. c \<noteq> Put_minor_block b xs) \<Longrightarrow> put_hashes X h [c] = []"
  by (cases c) auto

lemma step_hashes_at:
  assumes "step X s c = Some (Inr s')"
  shows "hashes_at s' h = hashes_at s h \<union> set (put_hashes X h [c])"
proof -
  consider (put) b xs where "c = Put_minor_block b xs"
    | (cnt) n where "c = Get_block_count_by_height n"
    | (other) "\<And>b xs. c \<noteq> Put_minor_block b xs" "\<And>n. c \<noteq> Get_block_count_by_height n"
    by blast
  then show ?thesis
  proof cases
    case put
    with assms have "put_minor_block X s b xs = Inr s'" by simp
    from hashes_at_put_minor_block [OF this, of h] show ?thesis
      by (auto simp: put)
  next
    case cnt
    with assms show ?thesis by (auto simp: hashes_at_get_block_count)
  next
    case other
    have "hh s' = hh s" by (rule step_hh [OF assms other])
    then have "hashes_at s' h = hashes_at s h" by (rule hashes_at_cong)
    then show ?thesis
      by (simp add: put_hashes_single_other [OF other(1)])
  qed
qed

lemma put_hashes_Cons: "set (put_hashes X h (c # cs)) = set (put_hashes X h [c]) \<union> set (put_hashes X h cs)"
  by (cases c) auto

lemma run_hashes_at:
  "run X s cs = Some (Inr s') \<Longrightarrow> hashes_at s' h = hashes_at s h \<union> set (put_hashes X h cs)"
proof (induction cs arbitrary: s)
  case Nil
  then show ?case by simp
next
  case (Cons c cs)
  from Cons.prems obtain s1 where
    st: "step X s c = Some (Inr s1)" and rn: "run X s1 cs = Some (Inr s')"
    by (auto split: option.splits sum.splits)
  show ?case
    unfolding Cons.IH [OF rn] step_hashes_at [OF st] put_hashes_Cons [of X h c cs] by auto
qed

lemma count_is_card:
  "fst (get_block_count_by_height s h) = card (hashes_at s h)"
  by (simp add: get_block_count_by_height_def hashes_at_def split: option.splits)

lemma hashes_at_init: "hashes_at (init d e) h = {}"
  by (simp add: hashes_at_def init_def)

lemma hashes_at_remove_index: "hashes_at (remove_minor_block_index s b) h = hashes_at s h"
  by (simp add: hashes_at_def remove_minor_block_index_def)


section \<open>C6: the per-height hash set only grows\<close>

text \<open>
  Claim C6. After any sequence of calls on a fresh operator that returns, the
  set \<open>height_to_minor_block_hashes[h]\<close> is exactly the set of hashes of the
  blocks that \<open>put_minor_block\<close> stored at height \<open>h\<close>, and
  \<open>get_block_count_by_height h\<close> is the number of these distinct hashes;
  \<open>remove_minor_block_index\<close> leaves the set and the count as they are, no call
  makes the set smaller, and \<open>put_minor_block\<close> adds the hash of its block to the
  set of the block's height.
\<close>

theorem height_hashes_only_grow:
  assumes "run X (init d e) cs = Some (Inr s)"
  shows "hashes_at s h = set (put_hashes X h cs) \<and>
         fst (get_block_count_by_height s h) = card (set (put_hashes X h cs)) \<and>
         hashes_at (remove_minor_block_index s b) h = hashes_at s h \<and>
         fst (get_block_count_by_height (remove_minor_block_index s b) h)
           = fst (get_block_count_by_height s h) \<and>
         (\<forall>c s'. step X s c = Some (Inr s') \<longrightarrow> hashes_at s h \<subseteq> hashes_at s' h) \<and>
         (\<forall>b' xs s'. put_minor_block X s b' xs = Inr s' \<longrightarrow>
            hashes_at s' (height (header b'))
              = insert (mheader_get_hash X (header b')) (hashes_at s (height (header b'))))"
proof -
  have a: "hashes_at s h = set (put_hashes X h cs)"
    using run_hashes_at [OF assms, of h] by (simp add: hashes_at_init)
  have b: "fst (get_block_count_by_height s h) = card (set (put_hashes X h cs))"
    unfolding count_is_card a ..
  have c: "hashes_at (remove_minor_block_index s b) h = hashes_at s h"
    by (rule hashes_at_remove_index)
  have d: "fst (get_block_count_by_height (remove_minor_block_index s b) h)
           = fst (get_block_count_by_height s h)"
    unfolding count_is_card c ..
  have e: "\<forall>c s'. step X s c = Some (Inr s') \<longrightarrow> hashes_at s h \<subseteq> hashes_at s' h"
    using step_hashes_at by blast
  have f: "\<forall>b' xs s'. put_minor_block X s b' xs = Inr s' \<longrightarrow>
            hashes_at s' (height (header b'))
              = insert (mheader_get_hash X (header b')) (hashes_at s (height (header b')))"
    using hashes_at_put_minor_block by simp
  show ?thesis using a b c d e f by blast
qed

lemma demo_fork_runs:
  "(case run demo_collab (init [] demo_env) demo_fork_ops of
      Some (Inr s) \<Rightarrow> True | _ \<Rightarrow> False)"
  by code_simp

lemma demo_fork_runs_removed:
  "(case run demo_collab (init [] demo_env)
           (demo_fork_ops @ [Remove_minor_block_index (demo_block 5 1 0)]) of
      Some (Inr s) \<Rightarrow> True | _ \<Rightarrow> False)"
  by code_simp

lemma demo_fork_hashes:
  "card (set (put_hashes demo_collab 5 demo_fork_ops)) = 3"
  "card (set (put_hashes demo_collab 5
           (demo_fork_ops @ [Remove_minor_block_index (demo_block 5 1 0)]))) = 3"
  by code_simp+

theorem height_hashes_only_grow_witness:
  "(\<exists>s. run demo_collab (init [] demo_env) demo_fork_ops = Some (Inr s) \<and>
        fst (get_block_count_by_height s 5) = 3 \<and>
        fst (get_block_count_by_height (remove_minor_block_index s (demo_block 5 1 0)) 5) = 3) \<and>
   (\<exists>s. run demo_collab (init [] demo_env)
            (demo_fork_ops @ [Remove_minor_block_index (demo_block 5 1 0)]) = Some (Inr s) \<and>
        fst (get_block_count_by_height s 5) = 3)"
proof -
  obtain s where s: "run demo_collab (init [] demo_env) demo_fork_ops = Some (Inr s)"
    using demo_fork_runs
    by (cases "run demo_collab (init [] demo_env) demo_fork_ops")
       (auto split: sum.splits)
  obtain s2 where s2: "run demo_collab (init [] demo_env)
            (demo_fork_ops @ [Remove_minor_block_index (demo_block 5 1 0)]) = Some (Inr s2)"
    using demo_fork_runs_removed
    by (cases "run demo_collab (init [] demo_env)
            (demo_fork_ops @ [Remove_minor_block_index (demo_block 5 1 0)])")
       (auto split: sum.splits)
  note t1 = height_hashes_only_grow [OF s, of 5 "demo_block 5 1 0"]
  note t2 = height_hashes_only_grow [OF s2, of 5 "demo_block 5 1 0"]
  have a: "fst (get_block_count_by_height s 5) = 3"
    using t1 demo_fork_hashes(1) by simp
  have b: "fst (get_block_count_by_height (remove_minor_block_index s (demo_block 5 1 0)) 5) = 3"
    using t1 a by simp
  have c: "fst (get_block_count_by_height s2 5) = 3"
    using t2 demo_fork_hashes(2) by simp
  show ?thesis using s s2 a b c by blast
qed


section \<open>C5: header lookups and the header pools\<close>

lemma put_minor_block_pools:
  assumes "put_minor_block X s b xs = Inr s'"
  shows "m_header_pool s' = (m_header_pool s)(mheader_get_hash X (header b) \<mapsto> header b)"
    and "m_meta_pool s' = (m_meta_pool s)(mheader_get_hash X (header b) \<mapsto> meta b)"
    and "r_header_pool s' = r_header_pool s"
    and "env s' = env s"
  using assms
  by (auto simp: put_minor_block_def put_total_tx_count_def
        put_confirmed_cross_shard_transaction_deposit_list_def Let_def
      split: sum.splits if_splits)

lemma get_minor_block_header_by_hash_store_only:
  "db_get (db s) (''mblock_'' @ h) = None \<or> db_get (db s) (''mblock_'' @ h) = Some []
     \<Longrightarrow> get_minor_block_header_by_hash X s h = Inr (None, s)"
  by (auto simp: get_minor_block_header_by_hash_def get_minor_block_by_hash_def)

lemma get_root_block_header_by_hash_hit:
  "r_header_pool s h = Some hdr \<Longrightarrow> get_root_block_header_by_hash X s h = Inr (Some hdr, s)"
  by (simp add: get_root_block_header_by_hash_def)

lemma get_root_block_header_by_hash_miss:
  assumes "r_header_pool s h = None" "db_get (db s) (''rblock_'' @ h) = Some raw" "raw \<noteq> []"
    "rblock_deserialize X raw = Some blk"
  shows "get_root_block_header_by_hash X s h =
           Inr (Some (root_header blk), s\<lparr>r_header_pool := (r_header_pool s)(h \<mapsto> root_header blk)\<rparr>)"
  using assms by (simp add: get_root_block_header_by_hash_def get_root_block_by_hash_def)

text \<open>
  Claim C5 at a concrete operator. A block is stored with \<open>put_minor_block\<close>,
  which enters its header in the minor header pool, and the store entry of the
  block is then emptied. \<open>get_minor_block_header_by_hash\<close> of the pooled hash
  returns \<open>None\<close>: it reads the store and never the pool. On the same operator
  \<open>get_root_block_header_by_hash\<close> returns the pooled root header although the
  store entry of the root block is empty.
\<close>

theorem minor_header_lookup_ignores_pool:
  "\<exists>s1. put_minor_block demo_collab (init [] demo_env) (demo_block 3 0 2) [] = Inr s1 \<and>
        m_header_pool (put s1 (''mblock_'' @ demo_hash 3 0) []) (demo_hash 3 0)
          = Some (header (demo_block 3 0 2)) \<and>
        get_minor_block_header_by_hash demo_collab
            (put s1 (''mblock_'' @ demo_hash 3 0) []) (demo_hash 3 0)
          = Inr (None, put s1 (''mblock_'' @ demo_hash 3 0) []) \<and>
        r_header_pool
            (put (put_root_block demo_collab s1 (demo_root_block 1) None None)
                 (''rblock_'' @ be_bytes 32 1) []) (be_bytes 32 1)
          = Some (root_header (demo_root_block 1)) \<and>
        get_root_block_header_by_hash demo_collab
            (put (put_root_block demo_collab s1 (demo_root_block 1) None None)
                 (''rblock_'' @ be_bytes 32 1) []) (be_bytes 32 1)
          = Inr (Some (root_header (demo_root_block 1)),
                 put (put_root_block demo_collab s1 (demo_root_block 1) None None)
                     (''rblock_'' @ be_bytes 32 1) [])"
proof -
  have "(if 2 < height (header (demo_block 3 0 2))
         then get_total_tx_count (init [] demo_env)
                (hash_prev_minor_block (header (demo_block 3 0 2))) else 0)
        + int (length (tx_list (demo_block 3 0 2))) < 2 ^ 32"
    by (simp add: demo_block_simps get_total_tx_count_def init_def db_get_def)
  with put_minor_block_cases [of "demo_block 3 0 2" "init [] demo_env" demo_collab "[]"]
  obtain s1 where
    s1: "put_minor_block demo_collab (init [] demo_env) (demo_block 3 0 2) [] = Inr s1"
    by blast
  let ?s = "put s1 (''mblock_'' @ demo_hash 3 0) []"
  have p: "m_header_pool ?s (demo_hash 3 0) = Some (header (demo_block 3 0 2))"
    using put_minor_block_pools(1) [OF s1] by (simp add: put_def demo_block_simps)
  have g: "get_minor_block_header_by_hash demo_collab ?s (demo_hash 3 0) = Inr (None, ?s)"
    by (rule get_minor_block_header_by_hash_store_only) (simp add: put_def db_get_put)
  let ?r = "put (put_root_block demo_collab s1 (demo_root_block 1) None None)
                (''rblock_'' @ be_bytes 32 1) []"
  have rp: "r_header_pool ?r (be_bytes 32 1) = Some (root_header (demo_root_block 1))"
    by (simp add: put_def put_root_block_def Let_def demo_collab_def demo_root_block_def
             del: be_bytes.simps)
  have rg: "get_root_block_header_by_hash demo_collab ?r (be_bytes 32 1)
              = Inr (Some (root_header (demo_root_block 1)), ?r)"
    by (rule get_root_block_header_by_hash_hit [OF rp])
  show ?thesis using s1 p g rp rg by blast
qed


section \<open>Lemmas on the recovery walk\<close>

lemma record_visited_frame:
  "env (record_visited s h vs) = env s"
  "db (record_visited s h vs) = db s"
  "r_header_pool (record_visited s h vs) = r_header_pool s"
  "height_to_minor_block_hashes (record_visited s h vs) = height_to_minor_block_hashes s"
  by (induction s h vs rule: record_visited.induct) auto

lemma dom_record_visited:
  "dom (m_header_pool (record_visited s h vs)) = dom (m_header_pool s) \<union> set (chain_hashes h vs)"
  "dom (m_meta_pool (record_visited s h vs)) = dom (m_meta_pool s) \<union> set (chain_hashes h vs)"
  by (induction s h vs rule: record_visited.induct) auto

lemma length_chain_hashes: "length (chain_hashes h bs) = length bs"
  by (induction bs arbitrary: h) auto

lemma set_demo_chain_from:
  "set (demo_chain_from n k) = (\<lambda>j. demo_block j 0 0) ` {n - int k <.. n}"
proof (induction k arbitrary: n)
  case 0
  then show ?case by simp
next
  case (Suc k)
  have "{n - int (Suc k) <.. n} = insert n {n - 1 - int k <.. n - 1}" by auto
  then show ?case by (simp add: Suc)
qed

lemma demo_hash_inj:
  assumes "0 \<le> a" "a < 2 ^ 32" "0 \<le> b" "b < 2 ^ 32"
  shows "(demo_hash a 0 = demo_hash b 0) = (a = b)"
proof -
  have "(be_bytes 16 a = be_bytes 16 b) = (a = b)"
    using assms by (intro be_bytes_inj) auto
  then show ?thesis
    unfolding demo_hash_def by (simp del: be_bytes.simps)
qed

lemma map_of_map_key:
  "b \<in> set bs \<Longrightarrow> inj_on f (set bs) \<Longrightarrow> map_of (map (\<lambda>b. (f b, g b)) bs) (f b) = Some (g b)"
  by (induction bs) (auto simp: inj_on_def)

lemma demo_chain_store_lookup:
  assumes "0 \<le> j" "j \<le> 99"
  shows "db_get demo_chain_store (''mblock_'' @ demo_hash j 0)
           = Some (mblock_serialize demo_collab (demo_block j 0 0))"
proof -
  let ?f = "\<lambda>b. ''mblock_'' @ mheader_get_hash demo_collab (header b)"
  let ?g = "mblock_serialize demo_collab"
  have m: "demo_block j 0 0 \<in> set (demo_chain_from 99 100)"
    unfolding set_demo_chain_from using assms by auto
  have i: "inj_on ?f (set (demo_chain_from 99 100))"
    unfolding set_demo_chain_from
    by (auto simp: inj_on_def demo_block_simps demo_hash_inj)
  have "map_of (map (\<lambda>b. (?f b, ?g b)) (demo_chain_from 99 100)) (?f (demo_block j 0 0))
          = Some (?g (demo_block j 0 0))"
    by (rule map_of_map_key [OF m i])
  then show ?thesis
    unfolding demo_chain_store_def db_get_def by (simp add: demo_block_simps)
qed

lemma demo_deserialize:
  assumes "0 \<le> j" "j < 2 ^ 32"
  shows "mblock_deserialize demo_collab (mblock_serialize demo_collab (demo_block j 0 0))
           = Some (demo_block j 0 0)"
proof -
  define r where "r = be_bytes 4 j @ be_bytes 4 0 @ be_bytes 4 0"
  have l: "length r = 12"
    unfolding r_def by (simp add: length_be_bytes del: be_bytes.simps)
  have t: "take 4 r = be_bytes 4 j" "take 4 (drop 4 r) = be_bytes 4 0" "drop 8 r = be_bytes 4 0"
    unfolding r_def using length_be_bytes [of 4 j] length_be_bytes [of 4 0]
    by (simp_all del: be_bytes.simps)
  have f: "from_bytes (be_bytes 4 j) = j" "from_bytes (be_bytes 4 0) = 0"
    using assms by (simp_all add: from_bytes_be_bytes del: be_bytes.simps)
  have s: "mblock_serialize demo_collab (demo_block j 0 0) = r"
    unfolding r_def by (simp add: demo_collab_def demo_block_def del: be_bytes.simps)
  show ?thesis
    unfolding s by (simp add: demo_collab_def l t f del: be_bytes.simps)
qed

lemma demo_stored_chain:
  "0 \<le> n - int k + 1 \<Longrightarrow> n \<le> 99 \<Longrightarrow>
     stored_chain demo_collab demo_chain_store (demo_hash n 0) (demo_chain_from n k)"
proof (induction k arbitrary: n)
  case 0
  then show ?case by simp
next
  case (Suc k)
  have n: "0 \<le> n" "n \<le> 99" using Suc.prems by auto
  have "stored_chain demo_collab demo_chain_store (demo_hash (n - 1) 0) (demo_chain_from (n - 1) k)"
    using Suc.prems by (intro Suc.IH) auto
  then show ?case
    using demo_chain_store_lookup [OF n] demo_deserialize [of n] n
    by (simp add: demo_block_simps)
qed

lemma demo_chain_hashes:
  "chain_hashes (demo_hash n 0) (demo_chain_from n k) = map (\<lambda>i. demo_hash (n - int i) 0) [0..<k]"
proof (induction k arbitrary: n)
  case 0
  then show ?case by simp
next
  case (Suc k)
  have "map (\<lambda>i. demo_hash (n - int i) 0) [0..<Suc k]
          = demo_hash n 0 # map (\<lambda>i. demo_hash (n - 1 - int i) 0) [0..<k]"
    by (simp add: upt_conv_Cons map_Suc_upt [symmetric] diff_diff_eq del: upt_Suc)
  then show ?case
    by (simp add: Suc demo_block_simps del: upt_Suc)
qed

lemma demo_chain_hashes_distinct:
  assumes "0 \<le> n - int k + 1" "n \<le> 99"
  shows "distinct (chain_hashes (demo_hash n 0) (demo_chain_from n k))"
proof -
  have "inj_on (\<lambda>i. demo_hash (n - int i) 0) (set [0..<k])"
    using assms by (auto simp: inj_on_def demo_hash_inj)
  then show ?thesis
    unfolding demo_chain_hashes by (simp add: distinct_map)
qed

lemma length_demo_chain_from: "length (demo_chain_from n k) = k"
  by (induction k arbitrary: n) auto

lemma nth_demo_chain_from: "i < k \<Longrightarrow> demo_chain_from n k ! i = demo_block (n - int i) 0 0"
proof (induction k arbitrary: n i)
  case 0
  then show ?case by simp
next
  case (Suc k)
  then show ?case by (cases i) (auto simp: diff_diff_eq)
qed

lemma walked_iff:
  "walked mx P h bs =
     ((\<forall>i<length bs. int (card (P \<union> set (take i (chain_hashes h bs)))) < mx) \<and>
      (\<forall>i. Suc i < length bs \<longrightarrow> 0 < height (header (bs ! i))) \<and>
      ((bs \<noteq> [] \<and> height (header (last bs)) \<le> 0) \<or>
       mx \<le> int (card (P \<union> set (chain_hashes h bs)))))"
proof (induction bs arbitrary: P h)
  case Nil
  then show ?case by auto
next
  case (Cons b bs)
  let ?h' = "hash_prev_minor_block (header b)"
  let ?hs = "chain_hashes ?h' bs"
  have e1: "(\<forall>i<length (b # bs). int (card (P \<union> set (take i (chain_hashes h (b # bs))))) < mx) =
            (int (card P) < mx \<and>
             (\<forall>i<length bs. int (card (insert h P \<union> set (take i ?hs))) < mx))"
    by (simp add: All_less_Suc2)
  have e2: "(\<forall>i. Suc i < length (b # bs) \<longrightarrow> 0 < height (header ((b # bs) ! i))) =
            ((bs \<noteq> [] \<longrightarrow> 0 < height (header b)) \<and>
             (\<forall>i. Suc i < length bs \<longrightarrow> 0 < height (header (bs ! i))))"
  proof (intro iffI conjI allI impI)
    assume a: "\<forall>i. Suc i < length (b # bs) \<longrightarrow> 0 < height (header ((b # bs) ! i))"
    show "0 < height (header b)" if "bs \<noteq> []"
      using a [rule_format, of 0] that by simp
    show "0 < height (header (bs ! i))" if "Suc i < length bs" for i
      using a [rule_format, of "Suc i"] that by simp
  next
    fix i
    assume a: "(bs \<noteq> [] \<longrightarrow> 0 < height (header b)) \<and>
               (\<forall>i. Suc i < length bs \<longrightarrow> 0 < height (header (bs ! i)))"
      and i: "Suc i < length (b # bs)"
    show "0 < height (header ((b # bs) ! i))"
    proof (cases i)
      case 0
      with i have "bs \<noteq> []" by auto
      with a 0 show ?thesis by simp
    next
      case (Suc j)
      with a i show ?thesis by simp
    qed
  qed
  have e3: "((b # bs \<noteq> [] \<and> height (header (last (b # bs))) \<le> 0) \<or>
             mx \<le> int (card (P \<union> set (chain_hashes h (b # bs))))) =
            (if bs = [] then height (header b) \<le> 0 \<or> mx \<le> int (card (insert h P))
             else (bs \<noteq> [] \<and> height (header (last bs)) \<le> 0) \<or>
                  mx \<le> int (card (insert h P \<union> set ?hs)))"
    by simp
  note ih = Cons.IH [of "insert h P" ?h']
  show ?case
  proof (cases "height (header b) \<le> 0")
    case True
    show ?thesis
      unfolding e1 e2 e3 using True by (cases "bs = []") auto
  next
    case False
    show ?thesis
    proof (cases "bs = []")
      case True
      with False show ?thesis unfolding e1 e2 e3 by auto
    next
      case nb: False
      have "walked mx P h (b # bs) = (int (card P) < mx \<and> walked mx (insert h P) ?h' bs)"
        using False by simp
      also have "\<dots> = (int (card P) < mx \<and>
          (\<forall>i<length bs. int (card (insert h P \<union> set (take i ?hs))) < mx) \<and>
          (\<forall>i. Suc i < length bs \<longrightarrow> 0 < height (header (bs ! i))) \<and>
          ((bs \<noteq> [] \<and> height (header (last bs)) \<le> 0) \<or>
           mx \<le> int (card (insert h P \<union> set ?hs))))"
        unfolding ih by (rule refl)
      finally show ?thesis
        unfolding e1 e2 e3 using False nb by auto
    qed
  qed
qed

lemma recover_minor_loop_complete:
  assumes "stored_chain X (db s) h bs"
    and "walked (max_minor_blocks_in_memory (env s)) (dom (m_header_pool s)) h bs"
  shows "recover_minor_loop X s h = Some (Inr (record_visited s h bs))"
  using assms
proof (induction bs arbitrary: s h)
  case Nil
  then show ?case by (subst recover_minor_loop.simps) simp
next
  case (Cons b bs)
  let ?s2 = "s\<lparr>m_header_pool := (m_header_pool s)(h \<mapsto> header b),
                m_meta_pool := (m_meta_pool s)(h \<mapsto> meta b)\<rparr>"
  let ?h' = "hash_prev_minor_block (header b)"
  from Cons.prems(1) obtain data where
    g: "db_get (db s) (''mblock_'' @ h) = Some data" and
    d: "mblock_deserialize X data = Some b" and
    st: "stored_chain X (db s) ?h' bs"
    by (auto split: option.splits)
  from Cons.prems(2) have
    c: "int (card (dom (m_header_pool s))) < max_minor_blocks_in_memory (env s)" and
    w: "if height (header b) \<le> 0 then bs = []
        else walked (max_minor_blocks_in_memory (env s)) (insert h (dom (m_header_pool s))) ?h' bs"
    by simp_all
  show ?case
  proof (cases "height (header b) \<le> 0")
    case True
    with w have e: "bs = []" by simp
    show ?thesis
      apply (subst recover_minor_loop.simps)
      using c g d True e apply (simp add: Let_def)
      done
  next
    case False
    have dm: "dom (m_header_pool ?s2) = insert h (dom (m_header_pool s))" by simp
    have st2: "stored_chain X (db ?s2) ?h' bs" using st by simp
    have "walked (max_minor_blocks_in_memory (env s)) (dom (m_header_pool ?s2)) ?h' bs"
      unfolding dm using w False by simp
    then have w2: "walked (max_minor_blocks_in_memory (env ?s2)) (dom (m_header_pool ?s2)) ?h' bs"
      by simp
    have ih: "recover_minor_loop X ?s2 ?h' = Some (Inr (record_visited ?s2 ?h' bs))"
      by (rule Cons.IH [OF st2 w2])
    show ?thesis
      apply (subst recover_minor_loop.simps)
      using c g d False ih apply (simp add: Let_def)
      done
  qed
qed

lemma recover_minor_loop_sound:
  assumes "recover_minor_loop X s h = Some (Inr s')"
  shows "\<exists>bs. stored_chain X (db s) h bs \<and>
              walked (max_minor_blocks_in_memory (env s)) (dom (m_header_pool s)) h bs \<and>
              s' = record_visited s h bs"
proof -
  have "\<forall>s'. y = Inr s' \<longrightarrow>
          (\<exists>bs. stored_chain X (db s) h bs \<and>
                walked (max_minor_blocks_in_memory (env s)) (dom (m_header_pool s)) h bs \<and>
                s' = record_visited s h bs)"
    if "recover_minor_loop X s h = Some y" for y
  proof (rule recover_minor_loop.raw_induct
      [where P = "\<lambda>X s h y. \<forall>s'. y = Inr s' \<longrightarrow>
          (\<exists>bs. stored_chain X (db s) h bs \<and>
                walked (max_minor_blocks_in_memory (env s)) (dom (m_header_pool s)) h bs \<and>
                s' = record_visited s h bs)", OF _ that])
    fix f X s h y
    assume ih: "\<And>X s h y. f X s h = Some y \<Longrightarrow>
                  \<forall>s'. y = Inr s' \<longrightarrow>
          (\<exists>bs. stored_chain X (db s) h bs \<and>
                walked (max_minor_blocks_in_memory (env s)) (dom (m_header_pool s)) h bs \<and>
                s' = record_visited s h bs)"
      and b: "(if int (card (dom (m_header_pool s))) < max_minor_blocks_in_memory (env s) then
        (case db_get (db s) (''mblock_'' @ h) of
           None \<Rightarrow> Some (Inl DeserializeError)
         | Some data \<Rightarrow>
            (case mblock_deserialize X data of
               None \<Rightarrow> Some (Inl DeserializeError)
             | Some block \<Rightarrow>
                (let s1 = s\<lparr>m_header_pool := (m_header_pool s)(h \<mapsto> header block)\<rparr>;
                     s2 = s1\<lparr>m_meta_pool := (m_meta_pool s1)(h \<mapsto> meta block)\<rparr>
                 in if height (header block) \<le> 0
                    then Some (Inr s2)
                    else f X s2 (hash_prev_minor_block (header block)))))
      else Some (Inr s)) = Some y"
    show "\<forall>s'. y = Inr s' \<longrightarrow>
          (\<exists>bs. stored_chain X (db s) h bs \<and>
                walked (max_minor_blocks_in_memory (env s)) (dom (m_header_pool s)) h bs \<and>
                s' = record_visited s h bs)"
    proof (intro allI impI)
      fix s' assume y: "y = Inr s'"
      show "\<exists>bs. stored_chain X (db s) h bs \<and>
                walked (max_minor_blocks_in_memory (env s)) (dom (m_header_pool s)) h bs \<and>
                s' = record_visited s h bs"
      proof (cases "int (card (dom (m_header_pool s))) < max_minor_blocks_in_memory (env s)")
        case False
        with b y have "s' = s" by simp
        with False show ?thesis by (intro exI [of _ "[]"]) simp
      next
        case True
        with b y obtain data block where
          g: "db_get (db s) (''mblock_'' @ h) = Some data" and
          blk: "mblock_deserialize X data = Some block" and
          c: "(let s1 = s\<lparr>m_header_pool := (m_header_pool s)(h \<mapsto> header block)\<rparr>;
                   s2 = s1\<lparr>m_meta_pool := (m_meta_pool s1)(h \<mapsto> meta block)\<rparr>
                 in if height (header block) \<le> 0
                    then Some (Inr s2)
                    else f X s2 (hash_prev_minor_block (header block))) = Some (Inr s')"
          by (auto split: option.splits)
        let ?s2 = "s\<lparr>m_header_pool := (m_header_pool s)(h \<mapsto> header block),
                      m_meta_pool := (m_meta_pool s)(h \<mapsto> meta block)\<rparr>"
        let ?h' = "hash_prev_minor_block (header block)"
        show ?thesis
        proof (cases "height (header block) \<le> 0")
          case h0: True
          with c have "s' = ?s2" by (simp add: Let_def)
          with True g blk h0 show ?thesis
            by (intro exI [of _ "[block]"]) simp
        next
          case h1: False
          with c have "f X ?s2 ?h' = Some (Inr s')" by (simp add: Let_def)
          from ih [OF this] obtain bs where
            st: "stored_chain X (db ?s2) ?h' bs" and
            w: "walked (max_minor_blocks_in_memory (env ?s2)) (dom (m_header_pool ?s2)) ?h' bs" and
            r: "s' = record_visited ?s2 ?h' bs"
            by blast
          from st w r True g blk h1 show ?thesis
            by (intro exI [of _ "block # bs"]) simp
        qed
      qed
    qed
  qed
  with assms show ?thesis by blast
qed

lemma record_visited_lookup:
  assumes "i < length vs"
    and "chain_hashes h vs ! i \<notin> set (drop (Suc i) (chain_hashes h vs))"
  shows "m_header_pool (record_visited s h vs) (chain_hashes h vs ! i) = Some (header (vs ! i)) \<and>
         m_meta_pool (record_visited s h vs) (chain_hashes h vs ! i) = Some (meta (vs ! i))"
proof -
  have keep: "k \<notin> set (chain_hashes h vs) \<Longrightarrow>
        m_header_pool (record_visited s h vs) k = m_header_pool s k \<and>
        m_meta_pool (record_visited s h vs) k = m_meta_pool s k" for s h vs k
    by (induction s h vs rule: record_visited.induct) auto
  show ?thesis
    using assms
  proof (induction s h vs arbitrary: i rule: record_visited.induct)
    case (1 s h)
    then show ?case by simp
  next
    case (2 s h b bs)
    show ?case
    proof (cases i)
      case 0
      have "h \<notin> set (chain_hashes (hash_prev_minor_block (header b)) bs)"
        using "2.prems"(2) by (simp add: 0)
      from keep [OF this] show ?thesis by (simp add: 0)
    next
      case (Suc j)
      then show ?thesis using "2.IH" [of j] "2.prems" by simp
    qed
  qed
qed

lemma demo_root_loop:
  assumes "db s = demo_chain_store" "env s = demo_env" "r_header_pool s = Map.empty"
  shows "recover_root_loop demo_collab s
       (rheader_get_hash demo_collab (root_header (demo_root_block 0)))
     = Some (Inr (s\<lparr>r_header_pool := [be_bytes 32 0 \<mapsto> root_header (demo_root_block 0)]\<rparr>))"
proof -
  have h: "rheader_get_hash demo_collab (root_header (demo_root_block 0)) = be_bytes 32 0"
    by (simp add: demo_collab_def demo_root_block_def del: be_bytes.simps)
  have g: "db_get (db s) (''rblock_'' @ be_bytes 32 0) = Some (be_bytes 4 0)"
    by (simp add: assms demo_chain_store_def db_get_def demo_collab_def demo_root_block_def
             del: be_bytes.simps)
  have f: "from_bytes (be_bytes 4 0) = 0"
    by (rule from_bytes_be_bytes) simp_all
  have d: "rblock_deserialize demo_collab (be_bytes 4 0) = Some (demo_root_block 0)"
    using length_be_bytes [of 4 0] by (simp add: demo_collab_def f del: be_bytes.simps)
  have c: "int (card (dom (r_header_pool s))) < max_root_blocks_in_memory (env s)"
    by (simp add: assms demo_env_def)
  have e: "root_height (root_header (demo_root_block 0)) \<le> genesis_root_height (env s)"
    by (simp add: assms demo_env_def demo_root_block_def)
  show ?thesis
    unfolding h
    apply (subst recover_root_loop.simps)
    using c g d e apply (simp add: Let_def assms del: be_bytes.simps)
    done
qed

lemma demo_walk:
  assumes "P \<subseteq> {demo_hash 99 0}"
  shows "\<forall>i<length (demo_chain_from 99 10).
           int (card (P \<union> set (take i (chain_hashes (demo_hash 99 0) (demo_chain_from 99 10))))) < 10"
    and "\<forall>i. Suc i < length (demo_chain_from 99 10) \<longrightarrow>
           0 < height (header (demo_chain_from 99 10 ! i))"
    and "10 \<le> int (card (P \<union> set (chain_hashes (demo_hash 99 0) (demo_chain_from 99 10))))"
proof -
  define hs where "hs = chain_hashes (demo_hash 99 0) (demo_chain_from 99 10)"
  have dist: "distinct hs"
    unfolding hs_def by (rule demo_chain_hashes_distinct) simp_all
  have len: "length hs = 10"
    unfolding hs_def by (simp add: length_chain_hashes length_demo_chain_from)
  have h0: "hs ! 0 = demo_hash 99 0"
    unfolding hs_def demo_chain_hashes by (simp del: upt_Suc)
  have "take 9 hs ! 0 \<in> set (take 9 hs)"
    by (rule nth_mem) (simp add: len)
  then have in9: "demo_hash 99 0 \<in> set (take 9 hs)"
    using h0 by simp
  have c9: "card (set (take 9 hs)) = 9"
    using distinct_card [OF distinct_take [OF dist, of 9]] len by simp
  show "\<forall>i<length (demo_chain_from 99 10).
           int (card (P \<union> set (take i (chain_hashes (demo_hash 99 0) (demo_chain_from 99 10))))) < 10"
  proof (intro allI impI)
    fix i assume "i < length (demo_chain_from 99 10)"
    then have i: "i \<le> 9" by (simp add: length_demo_chain_from)
    have "P \<union> set (take i hs) \<subseteq> set (take 9 hs)"
      using assms in9 set_take_subset_set_take [OF i, of hs] by auto
    then have "card (P \<union> set (take i hs)) \<le> card (set (take 9 hs))"
      by (intro card_mono) simp_all
    then have "card (P \<union> set (take i hs)) \<le> 9"
      unfolding c9 .
    then show "int (card (P \<union> set (take i (chain_hashes (demo_hash 99 0) (demo_chain_from 99 10))))) < 10"
      unfolding hs_def by simp
  qed
  show "\<forall>i. Suc i < length (demo_chain_from 99 10) \<longrightarrow>
           0 < height (header (demo_chain_from 99 10 ! i))"
    by (simp add: length_demo_chain_from nth_demo_chain_from demo_block_simps)
  have "demo_hash 99 0 \<in> set hs"
    using in9 by (rule in_set_takeD)
  then have "P \<union> set hs = set hs" using assms by auto
  then have "card (P \<union> set hs) = 10"
    using distinct_card [OF dist] len by simp
  then show "10 \<le> int (card (P \<union> set (chain_hashes (demo_hash 99 0) (demo_chain_from 99 10))))"
    unfolding hs_def by simp
qed

lemma distinct_nth_notin_drop:
  assumes "distinct xs" "i < length xs"
  shows "xs ! i \<notin> set (drop (Suc i) xs)"
proof -
  have "xs = take i xs @ xs ! i # drop (Suc i) xs"
    using assms(2) by (rule id_take_nth_drop)
  then have "distinct (take i xs @ xs ! i # drop (Suc i) xs)"
    using assms(1) by simp
  then show ?thesis by simp
qed


section \<open>C4: recovery of the minor header pool\<close>

text \<open>
  C4. \<open>recover_state\<close> walks backward from the given minor head: it loads the
  stored block at the current hash, enters its header and metadata in the pools
  under that hash, and goes on with \<open>hash_prev_minor_block\<close>. Once the root
  walk has returned, \<open>recover_state\<close> returns an operator \<open>s'\<close> exactly when
  there is a list \<open>bs\<close> of blocks stored along the parent hashes from the
  head's hash such that

  \<^item> before each block of \<open>bs\<close> is loaded, the minor header pool (the keys it
    had at the call together with the hashes of the blocks loaded so far) has
    fewer than \<open>max_minor_blocks_in_memory\<close> keys;
  \<^item> every block of \<open>bs\<close> but the last has a height above 0;
  \<^item> the last block has a height of at most 0, or the pool has reached
    \<open>max_minor_blocks_in_memory\<close> keys after the last block;
  \<^item> \<open>s'\<close> is the operator left by the root walk with the header and metadata
    of each block of \<open>bs\<close> entered under its hash.

  The test is on the size of the pool, not on the number of blocks loaded: a
  hash that is already a key of the pool does not add to the size. The keys of
  both pools afterwards are the former keys and the hashes of \<open>bs\<close>, and a hash
  that does not occur again later in the walk is bound to the header and
  metadata of its block. For a stored chain of 100 blocks and a maximum of 10,
  the pools of a new operator hold exactly the blocks of heights 99 down to 90;
  the same holds when the head's header is already in the pool at the call.
\<close>

theorem recover_state_walks_chain:
  assumes "recover_root_loop X s (rheader_get_hash X r_header) = Some (Inr s1)"
  shows "((recover_state X s r_header m_header = Some (Inr s')) =
          (\<exists>bs. stored_chain X (db s) (mheader_get_hash X m_header) bs \<and>
                (\<forall>i<length bs.
                   int (card (dom (m_header_pool s) \<union>
                              set (take i (chain_hashes (mheader_get_hash X m_header) bs))))
                     < max_minor_blocks_in_memory (env s)) \<and>
                (\<forall>i. Suc i < length bs \<longrightarrow> 0 < height (header (bs ! i))) \<and>
                ((bs \<noteq> [] \<and> height (header (last bs)) \<le> 0) \<or>
                 max_minor_blocks_in_memory (env s)
                   \<le> int (card (dom (m_header_pool s) \<union>
                                 set (chain_hashes (mheader_get_hash X m_header) bs)))) \<and>
                s' = record_visited s1 (mheader_get_hash X m_header) bs)) \<and>
         (\<forall>h bs.
            dom (m_header_pool (record_visited s1 h bs))
              = dom (m_header_pool s) \<union> set (chain_hashes h bs) \<and>
            dom (m_meta_pool (record_visited s1 h bs))
              = dom (m_meta_pool s) \<union> set (chain_hashes h bs) \<and>
            (\<forall>i<length bs.
               chain_hashes h bs ! i \<notin> set (drop (Suc i) (chain_hashes h bs)) \<longrightarrow>
               m_header_pool (record_visited s1 h bs) (chain_hashes h bs ! i)
                 = Some (header (bs ! i)) \<and>
               m_meta_pool (record_visited s1 h bs) (chain_hashes h bs ! i)
                 = Some (meta (bs ! i))))"
proof -
  let ?h = "mheader_get_hash X m_header"
  from recover_root_loop_frame [OF assms] obtain p where s1: "s1 = s\<lparr>r_header_pool := p\<rparr>"
    by blast
  have fr: "db s1 = db s" "env s1 = env s" "m_header_pool s1 = m_header_pool s"
    "m_meta_pool s1 = m_meta_pool s"
    by (simp_all add: s1)
  have rs: "recover_state X s r_header m_header = recover_minor_loop X s1 ?h"
    by (simp add: recover_state_def assms)
  have "(recover_minor_loop X s1 ?h = Some (Inr s')) =
        (\<exists>bs. stored_chain X (db s1) ?h bs \<and>
              walked (max_minor_blocks_in_memory (env s1)) (dom (m_header_pool s1)) ?h bs \<and>
              s' = record_visited s1 ?h bs)"
  proof
    assume "recover_minor_loop X s1 ?h = Some (Inr s')"
    then show "\<exists>bs. stored_chain X (db s1) ?h bs \<and>
              walked (max_minor_blocks_in_memory (env s1)) (dom (m_header_pool s1)) ?h bs \<and>
              s' = record_visited s1 ?h bs"
      by (rule recover_minor_loop_sound)
  next
    assume "\<exists>bs. stored_chain X (db s1) ?h bs \<and>
              walked (max_minor_blocks_in_memory (env s1)) (dom (m_header_pool s1)) ?h bs \<and>
              s' = record_visited s1 ?h bs"
    then obtain bs where
      "stored_chain X (db s1) ?h bs"
      "walked (max_minor_blocks_in_memory (env s1)) (dom (m_header_pool s1)) ?h bs"
      "s' = record_visited s1 ?h bs"
      by blast
    then show "recover_minor_loop X s1 ?h = Some (Inr s')"
      using recover_minor_loop_complete by simp
  qed
  then have a: "(recover_state X s r_header m_header = Some (Inr s')) =
          (\<exists>bs. stored_chain X (db s) ?h bs \<and>
                (\<forall>i<length bs.
                   int (card (dom (m_header_pool s) \<union> set (take i (chain_hashes ?h bs))))
                     < max_minor_blocks_in_memory (env s)) \<and>
                (\<forall>i. Suc i < length bs \<longrightarrow> 0 < height (header (bs ! i))) \<and>
                ((bs \<noteq> [] \<and> height (header (last bs)) \<le> 0) \<or>
                 max_minor_blocks_in_memory (env s)
                   \<le> int (card (dom (m_header_pool s) \<union> set (chain_hashes ?h bs)))) \<and>
                s' = record_visited s1 ?h bs)"
    unfolding rs fr walked_iff conj_assoc .
  have b: "dom (m_header_pool (record_visited s1 h bs))
              = dom (m_header_pool s) \<union> set (chain_hashes h bs)"
    "dom (m_meta_pool (record_visited s1 h bs))
              = dom (m_meta_pool s) \<union> set (chain_hashes h bs)" for h bs
    using dom_record_visited [of s1 h bs] by (simp_all add: fr)
  have c: "m_header_pool (record_visited s1 h bs) (chain_hashes h bs ! i)
                 = Some (header (bs ! i)) \<and>
           m_meta_pool (record_visited s1 h bs) (chain_hashes h bs ! i)
                 = Some (meta (bs ! i))"
    if "i < length bs" "chain_hashes h bs ! i \<notin> set (drop (Suc i) (chain_hashes h bs))"
    for h bs i
    using that by (rule record_visited_lookup)
  show ?thesis
    using a b c by blast
qed

theorem recover_state_walks_chain_witness:
  "(\<exists>s'. recover_state demo_collab (init demo_chain_store demo_env)
            (root_header (demo_root_block 0)) (header (demo_block 99 0 0)) = Some (Inr s') \<and>
         dom (m_header_pool s') = set (map (\<lambda>i. demo_hash (99 - int i) 0) [0..<10]) \<and>
         card (dom (m_header_pool s')) = 10 \<and>
         dom (m_meta_pool s') = dom (m_header_pool s') \<and>
         m_header_pool s' (demo_hash 99 0) = Some (header (demo_block 99 0 0)) \<and>
         m_header_pool s' (demo_hash 90 0) = Some (header (demo_block 90 0 0)) \<and>
         m_header_pool s' (demo_hash 89 0) = None) \<and>
   (\<exists>sh s'. get_minor_block_header_by_hash demo_collab (init demo_chain_store demo_env)
              (demo_hash 99 0) = Inr (Some (header (demo_block 99 0 0)), sh) \<and>
         dom (m_header_pool sh) = {demo_hash 99 0} \<and>
         recover_state demo_collab sh
            (root_header (demo_root_block 0)) (header (demo_block 99 0 0)) = Some (Inr s') \<and>
         dom (m_header_pool s') = set (map (\<lambda>i. demo_hash (99 - int i) 0) [0..<10]) \<and>
         card (dom (m_header_pool s')) = 10 \<and>
         m_header_pool s' (demo_hash 99 0) = Some (header (demo_block 99 0 0)) \<and>
         m_header_pool s' (demo_hash 90 0) = Some (header (demo_block 90 0 0)) \<and>
         m_header_pool s' (demo_hash 89 0) = None)"
proof -
  let ?rh = "root_header (demo_root_block 0)"
  let ?mh = "header (demo_block 99 0 0)"
  let ?bs = "demo_chain_from 99 10"
  let ?hs = "map (\<lambda>i. demo_hash (99 - int i) 0) [0..<10]"
  have hh: "mheader_get_hash demo_collab ?mh = demo_hash 99 0"
    by (rule demo_block_simps)
  have ch: "chain_hashes (demo_hash 99 0) ?bs = ?hs"
    by (rule demo_chain_hashes)
  have ds: "distinct ?hs"
    using demo_chain_hashes_distinct [of 99 10] unfolding ch by simp
  have n0: "?hs ! 0 = demo_hash 99 0" "?hs ! 9 = demo_hash 90 0"
    by (simp_all del: upt_Suc)
  have b0: "?bs ! 0 = demo_block 99 0 0" "?bs ! 9 = demo_block 90 0 0"
    using nth_demo_chain_from [of 0 10 99] nth_demo_chain_from [of 9 10 99] by simp_all
  have in0: "demo_hash 99 0 \<in> set ?hs"
    using nth_mem [of 0 ?hs] unfolding n0 by (simp del: upt_Suc)
  have out: "demo_hash 89 0 \<notin> set ?hs"
    by (auto simp: demo_hash_inj)
  have gen: "\<exists>s'. recover_state demo_collab s ?rh ?mh = Some (Inr s') \<and>
         dom (m_header_pool s') = set ?hs \<and>
         card (dom (m_header_pool s')) = 10 \<and>
         dom (m_meta_pool s') = dom (m_meta_pool s) \<union> set ?hs \<and>
         m_header_pool s' (demo_hash 99 0) = Some (header (demo_block 99 0 0)) \<and>
         m_header_pool s' (demo_hash 90 0) = Some (header (demo_block 90 0 0)) \<and>
         m_header_pool s' (demo_hash 89 0) = None"
    if s: "db s = demo_chain_store" "env s = demo_env" "r_header_pool s = Map.empty"
      and sub: "dom (m_header_pool s) \<subseteq> {demo_hash 99 0}" for s
  proof -
    let ?s1 = "s\<lparr>r_header_pool := [be_bytes 32 0 \<mapsto> root_header (demo_root_block 0)]\<rparr>"
    let ?s' = "record_visited ?s1 (demo_hash 99 0) ?bs"
    note t = recover_state_walks_chain [OF demo_root_loop [OF s], where s' = ?s' and m_header = ?mh]
    have st: "stored_chain demo_collab (db s) (demo_hash 99 0) ?bs"
      unfolding s using demo_stored_chain [of 99 10] by simp
    have mx: "max_minor_blocks_in_memory (env s) = 10"
      by (simp add: s demo_env_def)
    have "\<exists>bs. stored_chain demo_collab (db s) (demo_hash 99 0) bs \<and>
                (\<forall>i<length bs.
                   int (card (dom (m_header_pool s) \<union>
                              set (take i (chain_hashes (demo_hash 99 0) bs))))
                     < max_minor_blocks_in_memory (env s)) \<and>
                (\<forall>i. Suc i < length bs \<longrightarrow> 0 < height (header (bs ! i))) \<and>
                ((bs \<noteq> [] \<and> height (header (last bs)) \<le> 0) \<or>
                 max_minor_blocks_in_memory (env s)
                   \<le> int (card (dom (m_header_pool s) \<union>
                                 set (chain_hashes (demo_hash 99 0) bs)))) \<and>
                ?s' = record_visited ?s1 (demo_hash 99 0) bs"
      unfolding mx
      using st demo_walk [OF sub] by (intro exI [of _ ?bs]) blast
    with t [THEN conjunct1] have r: "recover_state demo_collab s ?rh ?mh = Some (Inr ?s')"
      unfolding hh by blast
    note p = t [THEN conjunct2, rule_format, of "demo_hash 99 0" ?bs]
    have "dom (m_header_pool ?s') = dom (m_header_pool s) \<union> set ?hs"
      using p unfolding ch by blast
    then have e1: "dom (m_header_pool ?s') = set ?hs"
      using sub in0 by blast
    have e2: "dom (m_meta_pool ?s') = dom (m_meta_pool s) \<union> set ?hs"
      using p unfolding ch by blast
    have e3: "card (dom (m_header_pool ?s')) = 10"
      unfolding e1 using distinct_card [OF ds] by simp
    have lk: "m_header_pool ?s' (?hs ! i) = Some (header (?bs ! i))" if "i < 10" for i
    proof -
      have "?hs ! i \<notin> set (drop (Suc i) ?hs)"
        using ds that by (intro distinct_nth_notin_drop) simp_all
      moreover have "i < length ?bs" using that by (simp add: length_demo_chain_from)
      ultimately show ?thesis
        using t [THEN conjunct2, rule_format, of "demo_hash 99 0" ?bs]
        unfolding ch by blast
    qed
    have e4: "m_header_pool ?s' (demo_hash 99 0) = Some (header (demo_block 99 0 0))"
      using lk [of 0] unfolding n0 b0 by simp
    have e5: "m_header_pool ?s' (demo_hash 90 0) = Some (header (demo_block 90 0 0))"
      using lk [of 9] unfolding n0 b0 by simp
    have e6: "m_header_pool ?s' (demo_hash 89 0) = None"
      using out unfolding e1 [symmetric] by blast
    show ?thesis using r e1 e2 e3 e4 e5 e6 by blast
  qed
  let ?s0 = "init demo_chain_store demo_env"
  have s0: "db ?s0 = demo_chain_store" "env ?s0 = demo_env" "r_header_pool ?s0 = Map.empty"
    "dom (m_header_pool ?s0) \<subseteq> {demo_hash 99 0}"
    by (simp_all add: init_def)
  have m0: "dom (m_meta_pool ?s0) = {}"
    by (simp add: init_def)
  from gen [OF s0] obtain s' where
    f1: "recover_state demo_collab ?s0 ?rh ?mh = Some (Inr s')" and
    f2: "dom (m_header_pool s') = set ?hs" and
    f3: "card (dom (m_header_pool s')) = 10" and
    f4: "dom (m_meta_pool s') = dom (m_meta_pool ?s0) \<union> set ?hs" and
    f5: "m_header_pool s' (demo_hash 99 0) = Some (header (demo_block 99 0 0))" and
    f6: "m_header_pool s' (demo_hash 90 0) = Some (header (demo_block 90 0 0))" and
    f7: "m_header_pool s' (demo_hash 89 0) = None"
    by blast
  have f8: "dom (m_meta_pool s') = dom (m_header_pool s')"
    unfolding f2 f4 m0 by (rule Un_empty_left)
  have first: "\<exists>s'. recover_state demo_collab ?s0 ?rh ?mh = Some (Inr s') \<and>
         dom (m_header_pool s') = set ?hs \<and>
         card (dom (m_header_pool s')) = 10 \<and>
         dom (m_meta_pool s') = dom (m_header_pool s') \<and>
         m_header_pool s' (demo_hash 99 0) = Some (header (demo_block 99 0 0)) \<and>
         m_header_pool s' (demo_hash 90 0) = Some (header (demo_block 90 0 0)) \<and>
         m_header_pool s' (demo_hash 89 0) = None"
    using f1 f2 f3 f8 f5 f6 f7 by blast
  let ?sh = "?s0\<lparr>m_header_pool := (m_header_pool ?s0)(demo_hash 99 0 \<mapsto> ?mh)\<rparr>"
  have gb: "get_minor_block_by_hash demo_collab ?s0 (demo_hash 99 0) = Inr (Some (demo_block 99 0 0))"
  proof -
    have g: "db_get (db ?s0) (''mblock_'' @ demo_hash 99 0)
               = Some (mblock_serialize demo_collab (demo_block 99 0 0))"
      using demo_chain_store_lookup [of 99] by (simp add: init_def)
    have d: "mblock_deserialize demo_collab (mblock_serialize demo_collab (demo_block 99 0 0))
               = Some (demo_block 99 0 0)"
      by (rule demo_deserialize) simp_all
    have ne: "mblock_serialize demo_collab (demo_block 99 0 0) \<noteq> []"
      using d by (auto simp: demo_collab_def)
    show ?thesis
      unfolding get_minor_block_by_hash_def using g d ne by simp
  qed
  have gh: "get_minor_block_header_by_hash demo_collab ?s0 (demo_hash 99 0)
              = Inr (Some ?mh, ?sh)"
    unfolding get_minor_block_header_by_hash_def gb by simp
  have dh: "dom (m_header_pool ?sh) = {demo_hash 99 0}"
    by (simp add: init_def)
  have second: "\<exists>s'. recover_state demo_collab ?sh ?rh ?mh = Some (Inr s') \<and>
         dom (m_header_pool s') = set ?hs \<and>
         card (dom (m_header_pool s')) = 10 \<and>
         m_header_pool s' (demo_hash 99 0) = Some (header (demo_block 99 0 0)) \<and>
         m_header_pool s' (demo_hash 90 0) = Some (header (demo_block 90 0 0)) \<and>
         m_header_pool s' (demo_hash 89 0) = None"
  proof -
    have "db ?sh = demo_chain_store" "env ?sh = demo_env" "r_header_pool ?sh = Map.empty"
      by (simp_all add: init_def)
    from gen [OF this] dh show ?thesis by blast
  qed
  from first second gh dh show ?thesis by blast
qed

end
